theory Spec2Isabelle
  imports Main "HOL-Library.AList" "HOL-Library.Word"
begin

unbundle bit_operations_syntax

section \<open>Values of the program\<close>

text \<open>
  A path and a key are JavaScript strings, a value is a Buffer (a sequence of bytes).
  An error object carries the three properties the program looks at or sets:
  its message, its \<open>code\<close> and its \<open>syscall\<close>; a property that is undefined in
  JavaScript is \<open>None\<close>.
\<close>

type_synonym pathname = string
type_synonym bytes = "8 word list"

record js_error =
  message :: string
  code :: "string option"
  syscall :: "string option"

text \<open>\<open>new Error(msg)\<close>: no code, no syscall.\<close>

definition Error :: "string \<Rightarrow> js_error" where
  "Error msg = \<lparr>message = msg, code = None, syscall = None\<rparr>"

text \<open>An error as Node's file-system layer raises it: a code and the failing system call.\<close>

definition sys_error :: "string \<Rightarrow> string \<Rightarrow> js_error" where
  "sys_error c s = \<lparr>message = c, code = Some c, syscall = Some s\<rparr>"

text \<open>
  The error constructors of interface-datastore (\<open>Errors\<close>): each one tags the error
  it is given with its code (through \<open>err-code\<close>, which sets the \<open>code\<close> property of
  the error and keeps the rest of it).
\<close>

definition errcode :: "js_error \<Rightarrow> string \<Rightarrow> js_error" where
  "errcode err c = err\<lparr>code := Some c\<rparr>"

definition dbOpenFailedError :: "js_error \<Rightarrow> js_error" where
  "dbOpenFailedError err = errcode err ''ERR_DB_OPEN_FAILED''"

definition dbDeleteFailedError :: "js_error \<Rightarrow> js_error" where
  "dbDeleteFailedError err = errcode err ''ERR_DB_DELETE_FAILED''"

definition dbWriteFailedError :: "js_error \<Rightarrow> js_error" where
  "dbWriteFailedError err = errcode err ''ERR_DB_WRITE_FAILED''"

definition notFoundError :: "js_error \<Rightarrow> js_error" where
  "notFoundError err = errcode err ''ERR_NOT_FOUND''"

section \<open>The file system and its primitives\<close>

text \<open>
  The file system is the only state of the program. It is an association list from
  absolute paths to nodes, in directory-traversal order; a file has its contents and
  the two permission bits \<open>fs.access\<close> can be asked about.

  The primitives the program imports (\<open>fs.access\<close>, \<open>fs.readFile\<close>, \<open>fs.unlink\<close>,
  \<open>fs.existsSync\<close>, \<open>mkdirp\<close>, \<open>fast-write-atomic\<close>, \<open>glob.sync\<close>) are modelled by
  their contract on this state. Each primitive that can fail for a reason the state
  does not show (a full disk, a locked file, a permission on a directory, the rename
  of fast-write-atomic refused by the platform) takes that failure from the
  environment \<open>env\<close>: \<open>env prim p = Some e\<close> makes the call of \<open>prim\<close> on the path \<open>p\<close>
  fail with \<open>e\<close> and leave the state as it was.
\<close>

datatype node = File (contents: bytes) (readable: bool) (writable: bool) | Dir

type_synonym filesystem = "(pathname \<times> node) list"

datatype prim = PAccess | PReadFile | PUnlink | PMkdirp | PWriteAtomic

type_synonym env = "prim \<Rightarrow> pathname \<Rightarrow> js_error option"

definition no_faults :: env where
  "no_faults = (\<lambda>_ _. None)"

text \<open>\<open>fs.constants\<close>: the mode bits of \<open>fs.access\<close>.\<close>

definition F_OK :: "32 word" where "F_OK = 0"
definition R_OK :: "32 word" where "R_OK = 4"
definition W_OK :: "32 word" where "W_OK = 2"
definition X_OK :: "32 word" where "X_OK = 1"

text \<open>
  \<open>fs.access(path, mode)\<close>: the path must exist, and a file must grant every
  permission asked for in \<open>mode\<close> (files of the store are never executable).
\<close>

definition fsAccess :: "env \<Rightarrow> pathname \<Rightarrow> 32 word \<Rightarrow> filesystem \<Rightarrow> js_error + unit" where
  "fsAccess env p mode fs =
     (case env PAccess p of
        Some e \<Rightarrow> Inl e
      | None \<Rightarrow>
         (case map_of fs p of
            None \<Rightarrow> Inl (sys_error ''ENOENT'' ''access'')
          | Some Dir \<Rightarrow> Inr ()
          | Some (File c r w) \<Rightarrow>
              if (mode AND R_OK \<noteq> 0 \<and> \<not> r) \<or> (mode AND W_OK \<noteq> 0 \<and> \<not> w) \<or> mode AND X_OK \<noteq> 0
              then Inl (sys_error ''EACCES'' ''access'')
              else Inr ()))"

text \<open>\<open>fs.readFile(path)\<close>: the whole contents of a readable file.\<close>

definition fsReadFile :: "env \<Rightarrow> pathname \<Rightarrow> filesystem \<Rightarrow> js_error + bytes" where
  "fsReadFile env p fs =
     (case env PReadFile p of
        Some e \<Rightarrow> Inl e
      | None \<Rightarrow>
         (case map_of fs p of
            None \<Rightarrow> Inl (sys_error ''ENOENT'' ''open'')
          | Some Dir \<Rightarrow> Inl (sys_error ''EISDIR'' ''read'')
          | Some (File c r w) \<Rightarrow> if r then Inr c else Inl (sys_error ''EACCES'' ''open'')))"

text \<open>
  \<open>fast-write-atomic\<close>: writes a temporary file and renames it onto \<open>path\<close>, so the
  destination is a fresh file with the new contents, or is left alone on failure. The
  temporary file is not part of the state, and a missing parent directory is one of
  the failures the environment supplies.
\<close>

definition writeAtomic :: "env \<Rightarrow> pathname \<Rightarrow> bytes \<Rightarrow> filesystem \<Rightarrow> (js_error + unit) \<times> filesystem" where
  "writeAtomic env p c fs =
     (case env PWriteAtomic p of
        Some e \<Rightarrow> (Inl e, fs)
      | None \<Rightarrow>
         (case map_of fs p of
            Some Dir \<Rightarrow> (Inl (sys_error ''EISDIR'' ''rename''), fs)
          | _ \<Rightarrow> (Inr (), AList.update p (File c True True) fs)))"

section \<open>Strings and paths\<close>

text \<open>
  \<open>String.prototype.split\<close> with a one-character separator and \<open>Array.prototype.join\<close>.
\<close>

fun split_str :: "char \<Rightarrow> string \<Rightarrow> string list" where
  "split_str c [] = [[]]"
| "split_str c (x # xs) =
     (if x = c then [] # split_str c xs
      else (case split_str c xs of [] \<Rightarrow> [[x]] | w # ws \<Rightarrow> (x # w) # ws))"

fun join_str :: "string \<Rightarrow> string list \<Rightarrow> string" where
  "join_str sep [] = []"
| "join_str sep [x] = x"
| "join_str sep (x # y # ys) = x @ sep @ join_str sep (y # ys)"

text \<open>
  \<open>String.prototype.slice(begin, end)\<close>: a negative index counts from the end, and both
  are clamped to the string. \<open>slice(b, -n)\<close> with \<open>n = 0\<close> is \<open>slice(b, 0)\<close>: JavaScript's
  \<open>-0\<close> is not negative.
\<close>

definition slice :: "int \<Rightarrow> int \<Rightarrow> string \<Rightarrow> string" where
  "slice b e s =
     (let n = int (length s);
          from = (if b < 0 then max (n + b) 0 else min b n);
          to = (if e < 0 then max (n + e) 0 else min e n)
      in take (nat (to - from)) (drop (nat from) s))"

text \<open>\<open>slice(begin)\<close>, to the end of the string.\<close>

definition slice_from :: "int \<Rightarrow> string \<Rightarrow> string" where
  "slice_from b s = slice b (int (length s)) s"

text \<open>
  Node's \<open>path\<close> module, in its POSIX form (\<open>path.sep\<close> is \<open>/\<close>).
  \<open>normalizeString\<close> walks the segments between slashes: an empty segment and \<open>.\<close>
  are dropped, \<open>..\<close> removes the segment before it (or is kept, above the start of a
  relative path).
\<close>

definition path_sep :: char where
  "path_sep = CHR ''/''"

fun normalizeString :: "bool \<Rightarrow> string list \<Rightarrow> string list \<Rightarrow> string list" where
  "normalizeString allowAboveRoot res [] = rev res"
| "normalizeString allowAboveRoot res (s # ss) =
     (if s = [] \<or> s = ''.'' then normalizeString allowAboveRoot res ss
      else if s = ''..'' then
        (case res of
           [] \<Rightarrow> normalizeString allowAboveRoot (if allowAboveRoot then [''..''] else []) ss
         | r # rs \<Rightarrow>
             if r = ''..'' then normalizeString allowAboveRoot (if allowAboveRoot then ''..'' # res else res) ss
             else normalizeString allowAboveRoot rs ss)
      else normalizeString allowAboveRoot (s # res) ss)"

definition normalize :: "string \<Rightarrow> string" where
  "normalize p =
     (if p = [] then ''.''
      else
        let isAbsolute = (hd p = CHR ''/'');
            trailingSeparator = (last p = CHR ''/'');
            q = join_str ''/'' (normalizeString (\<not> isAbsolute) [] (split_str CHR ''/'' p))
        in if q = [] then (if isAbsolute then ''/'' else if trailingSeparator then ''./'' else ''.'')
           else (if isAbsolute then ''/'' else []) @ q @ (if trailingSeparator then ''/'' else []))"

text \<open>\<open>path.join(...args)\<close>: the non-empty arguments, joined by \<open>/\<close> and normalized.\<close>

definition path_join :: "string list \<Rightarrow> string" where
  "path_join args =
     (let joined = filter (\<lambda>a. a \<noteq> []) args
      in if joined = [] then ''.'' else normalize (join_str ''/'' joined))"

text \<open>
  \<open>path.extname(p)\<close>: from the last \<open>.\<close> of the last path component (trailing slashes
  apart) to its end; empty when there is no dot, when the dot is the first character
  of the component, and for the component \<open>..\<close>.
\<close>

definition basename :: "string \<Rightarrow> string" where
  "basename p = rev (takeWhile (\<lambda>c. c \<noteq> CHR ''/'') (dropWhile (\<lambda>c. c = CHR ''/'') (rev p)))"

definition extname :: "string \<Rightarrow> string" where
  "extname p =
     (let b = basename p;
          e = rev (takeWhile (\<lambda>c. c \<noteq> CHR ''.'') (rev b))
      in if CHR ''.'' \<notin> set b \<or> length b = Suc (length e) \<or> b = ''..'' then []
         else CHR ''.'' # e)"

section \<open>Primitives over paths: mkdirp, unlink, existsSync, glob\<close>

text \<open>The absolute path with the given segments: \<open>/s1/s2/.../sn\<close>.\<close>

definition path_of :: "string list \<Rightarrow> pathname" where
  "path_of segs = concat (map (\<lambda>s. CHR ''/'' # s) segs)"

text \<open>
  \<open>mkdirp(dir)\<close> resolves \<open>dir\<close> and creates it with every missing ancestor, from the
  top down; it stops with an error at an ancestor that is a file (\<open>ENOTDIR\<close>), or
  when \<open>dir\<close> itself is one (\<open>EEXIST\<close>).
\<close>

definition ancestors :: "pathname \<Rightarrow> pathname list" where
  "ancestors p =
     (let segs = normalizeString False [] (split_str CHR ''/'' p)
      in map (\<lambda>n. path_of (take n segs)) [1..<Suc (length segs)])"

fun mkdir_all :: "pathname list \<Rightarrow> filesystem \<Rightarrow> (js_error + unit) \<times> filesystem" where
  "mkdir_all [] fs = (Inr (), fs)"
| "mkdir_all (d # ds) fs =
     (case map_of fs d of
        None \<Rightarrow> mkdir_all ds (fs @ [(d, Dir)])
      | Some Dir \<Rightarrow> mkdir_all ds fs
      | Some (File c r w) \<Rightarrow>
          (Inl (sys_error (if ds = [] then ''EEXIST'' else ''ENOTDIR'') ''mkdir''), fs))"

definition mkdirp :: "env \<Rightarrow> pathname \<Rightarrow> filesystem \<Rightarrow> (js_error + unit) \<times> filesystem" where
  "mkdirp env p fs =
     (case env PMkdirp p of
        Some e \<Rightarrow> (Inl e, fs)
      | None \<Rightarrow> mkdir_all (ancestors p) fs)"

text \<open>
  \<open>fs.unlink(path)\<close> removes a file. \<open>delete\<close> tells its errors apart by their code, so
  the resolution of the path is modelled as the system does it, component by
  component from the root (over the normalized path): a path of more than 4095 bytes or a component of more than
  255 bytes is \<open>ENAMETOOLONG\<close>, a missing component is \<open>ENOENT\<close>, a component that is
  a regular file with more components after it is \<open>ENOTDIR\<close>; a directory at the end
  is \<open>EISDIR\<close>. (\<open>fs.access\<close> and \<open>fs.readFile\<close> above look at the node of the path
  only: \<open>has\<close> and \<open>get\<close> treat every failure alike, whatever its code.)
\<close>

fun walk :: "filesystem \<Rightarrow> pathname \<Rightarrow> string list \<Rightarrow> string + node" where
  "walk fs d [] = Inr Dir"
| "walk fs d (s # ss) =
     (if length s > 255 then Inl ''ENAMETOOLONG''
      else
        (case map_of fs (d @ CHR ''/'' # s) of
           None \<Rightarrow> Inl ''ENOENT''
         | Some n \<Rightarrow>
             if ss = [] then Inr n
             else (case n of
                     Dir \<Rightarrow> walk fs (d @ CHR ''/'' # s) ss
                   | File c r w \<Rightarrow> Inl ''ENOTDIR'')))"

definition resolve_path :: "filesystem \<Rightarrow> pathname \<Rightarrow> string + node" where
  "resolve_path fs p =
     (if length p > 4095 then Inl ''ENAMETOOLONG''
      else walk fs [] (normalizeString False [] (split_str CHR ''/'' p)))"

definition fsUnlink :: "env \<Rightarrow> pathname \<Rightarrow> filesystem \<Rightarrow> (js_error + unit) \<times> filesystem" where
  "fsUnlink env p fs =
     (case env PUnlink p of
        Some e \<Rightarrow> (Inl e, fs)
      | None \<Rightarrow>
         (case resolve_path fs p of
            Inl c \<Rightarrow> (Inl (sys_error c ''unlink''), fs)
          | Inr Dir \<Rightarrow> (Inl (sys_error ''EISDIR'' ''unlink''), fs)
          | Inr (File c r w) \<Rightarrow>
              (Inr (), AList.delete
                         (path_of (normalizeString False [] (split_str CHR ''/'' p))) fs)))"

text \<open>\<open>fs.existsSync(path)\<close> never throws. The root directory \<open>/\<close> always exists.\<close>

definition existsSync :: "pathname \<Rightarrow> filesystem \<Rightarrow> bool" where
  "existsSync p fs = (p = ''/'' \<or> map_of fs p \<noteq> None)"

text \<open>
  \<open>glob.sync(pattern)\<close>: the existing paths that match the pattern, segment by segment.
  Modelled are the two wildcards the program writes into its patterns: \<open>*\<close>, any run
  of characters inside one name, and a segment \<open>**\<close>, any number of directories.
  With glob's default options neither matches a name that starts with a dot, unless
  the pattern segment itself starts with one. Every other character stands for itself.
\<close>

fun seg_match :: "string \<Rightarrow> string \<Rightarrow> bool" where
  "seg_match [] s = (s = [])"
| "seg_match (p # ps) s =
     (if p = CHR ''*'' then
        seg_match ps s \<or> (case s of [] \<Rightarrow> False | c # cs \<Rightarrow> seg_match (p # ps) cs)
      else (case s of [] \<Rightarrow> False | c # cs \<Rightarrow> p = c \<and> seg_match ps cs))"

definition name_match :: "string \<Rightarrow> string \<Rightarrow> bool" where
  "name_match pat name =
     (if CHR ''*'' \<in> set pat
      then name \<noteq> [] \<and> (hd name = CHR ''.'' \<longrightarrow> hd pat = CHR ''.'') \<and> seg_match pat name
      else pat = name)"

fun segs_match :: "string list \<Rightarrow> string list \<Rightarrow> bool" where
  "segs_match [] ns = (ns = [])"
| "segs_match (p # ps) ns =
     (if p = ''**'' then
        segs_match ps ns \<or>
        (case ns of [] \<Rightarrow> False
         | n # ns' \<Rightarrow> n \<noteq> [] \<and> hd n \<noteq> CHR ''.'' \<and> segs_match (p # ps) ns')
      else (case ns of [] \<Rightarrow> False | n # ns' \<Rightarrow> name_match p n \<and> segs_match ps ns'))"

definition glob_match :: "string \<Rightarrow> pathname \<Rightarrow> bool" where
  "glob_match pattern f = segs_match (split_str CHR ''/'' pattern) (split_str CHR ''/'' f)"

definition glob_sync :: "string \<Rightarrow> filesystem \<Rightarrow> pathname list" where
  "glob_sync pattern fs = filter (glob_match pattern) (map fst fs)"

section \<open>Keys\<close>

text \<open>
  The \<open>Key\<close> class of interface-datastore. \<open>new Key(s)\<close> cleans its argument: the
  empty string is \<open>/\<close>, a leading \<open>/\<close> is added when missing, trailing slashes are
  removed. \<open>toString\<close> gives the cleaned string back, so a key is modelled by it.
\<close>

type_synonym key = string

fun strip_trailing :: "string \<Rightarrow> string" where
  "strip_trailing s =
     (if length s > 1 \<and> last s = CHR ''/'' then strip_trailing (butlast s) else s)"

definition Key :: "string \<Rightarrow> key" where
  "Key s =
     (let s1 = (if s = [] then ''/'' else s);
          s2 = (if hd s1 \<noteq> CHR ''/'' then CHR ''/'' # s1 else s1)
      in strip_trailing s2)"

definition key_toString :: "key \<Rightarrow> string" where
  "key_toString k = k"

text \<open>\<open>list()\<close>: \<open>toString().split('/').slice(1)\<close>.\<close>

definition key_list :: "key \<Rightarrow> string list" where
  "key_list k = tl (split_str CHR ''/'' (key_toString k))"

text \<open>\<open>parent()\<close>: the key of all segments but the last; the parent of a one-segment key is \<open>/\<close>.\<close>

definition key_parent :: "key \<Rightarrow> key" where
  "key_parent k =
     (let l = key_list k
      in if length l = 1 then Key ''/'' else Key (join_str ''/'' (butlast l)))"

section \<open>The datastore\<close>

record options =
  createIfMissing :: bool
  errorIfExists :: bool
  extension :: string

record datastore =
  path :: pathname
  opts :: options

text \<open>
  \<open>path.resolve(location)\<close> in a process whose working directory is the absolute path
  \<open>cwd\<close>: a relative location is taken from \<open>cwd\<close>, and the result is normalized,
  without a trailing slash.
\<close>

definition path_resolve :: "pathname \<Rightarrow> string \<Rightarrow> pathname" where
  "path_resolve cwd location =
     (let resolvedPath =
            (if location = [] then cwd @ ''/''
             else if hd location = CHR ''/'' then location @ ''/''
             else cwd @ ''/'' @ location @ ''/'')
      in CHR ''/'' # join_str ''/'' (normalizeString False [] (split_str CHR ''/'' resolvedPath)))"

text \<open>
  The constructor: the resolved location, and the given options over the defaults
  (\<open>Object.assign\<close>); an option that is not given is \<open>None\<close>.
\<close>

record options_arg =
  createIfMissing_arg :: "bool option"
  errorIfExists_arg :: "bool option"
  extension_arg :: "string option"

definition FsDatastore :: "pathname \<Rightarrow> string \<Rightarrow> options_arg \<Rightarrow> datastore" where
  "FsDatastore cwd location arg =
     \<lparr>path = path_resolve cwd location,
      opts = \<lparr>createIfMissing = (case createIfMissing_arg arg of None \<Rightarrow> True | Some b \<Rightarrow> b),
              errorIfExists = (case errorIfExists_arg arg of None \<Rightarrow> False | Some b \<Rightarrow> b),
              extension = (case extension_arg arg of None \<Rightarrow> ''.data'' | Some e \<Rightarrow> e)\<rparr>\<rparr>"

text \<open>The result of \<open>_encode\<close>: the object \<open>{ dir, file }\<close>.\<close>

record parts =
  pdir :: pathname
  pfile :: pathname

text \<open>
  \<open>_encode(key)\<close>: the directory and the file of a key.
\<close>

definition encode :: "datastore \<Rightarrow> key \<Rightarrow> parts" where
  "encode ds k =
     (let parent = key_toString (key_parent k);
          d = path_join [path ds, parent];
          name = slice_from (int (length parent)) (key_toString k);
          f = path_join [d, name @ extension (opts ds)]
      in \<lparr>pdir = d, pfile = f\<rparr>)"

text \<open>
  \<open>_decode(file)\<close>: the key of a file; a file whose extension is not the configured
  one is refused.
\<close>

definition decode :: "datastore \<Rightarrow> pathname \<Rightarrow> js_error + key" where
  "decode ds f =
     (let ext = extension (opts ds)
      in if extname f \<noteq> ext then Inl (Error (''Invalid extension: '' @ extname f))
         else Inr (Key (join_str ''/''
                (split_str path_sep (slice (int (length (path ds))) (- int (length ext)) f)))))"

text \<open>
  \<open>writeFile(path, contents)\<close>: the atomic write, and the resolution of the rename that
  the platform refuses because the destination already exists.
\<close>

definition writeFile :: "env \<Rightarrow> pathname \<Rightarrow> bytes \<Rightarrow> filesystem \<Rightarrow> (js_error + unit) \<times> filesystem" where
  "writeFile env p c fs =
     (case writeAtomic env p c fs of
        (Inr u, fs') \<Rightarrow> (Inr (), fs')
      | (Inl err, fs') \<Rightarrow>
          if code err = Some ''EPERM'' \<and> syscall err = Some ''rename'' then
            (case fsAccess env p (F_OK OR W_OK) fs' of
               Inl e \<Rightarrow> (Inl e, fs')
             | Inr u \<Rightarrow> (Inr (), fs'))
          else (Inl err, fs'))"

text \<open>The options of a store constructed without options.\<close>

definition default_opts :: options where
  "default_opts = \<lparr>createIfMissing = True, errorIfExists = False, extension = ''.data''\<rparr>"

text \<open>\<open>open()\<close>.\<close>

definition "open" :: "datastore \<Rightarrow> env \<Rightarrow> filesystem \<Rightarrow> (js_error + unit) \<times> filesystem" where
  "open ds env fs =
     (case (if \<not> existsSync (path ds) fs
            then Inl (notFoundError (Error (''Datastore directory: '' @ path ds @ '' does not exist'')))
            else if errorIfExists (opts ds)
            then Inl (dbOpenFailedError (Error (''Datastore directory: '' @ path ds @ '' already exists'')))
            else Inr ()) of
        Inr u \<Rightarrow> (Inr (), fs)
      | Inl err \<Rightarrow>
          if code err = Some ''ERR_NOT_FOUND'' \<and> createIfMissing (opts ds)
          then mkdirp env (path ds) fs
          else (Inl err, fs))"

text \<open>\<open>putRaw(key, val)\<close>: the write without the extension; no error is caught.\<close>

definition putRaw :: "datastore \<Rightarrow> env \<Rightarrow> key \<Rightarrow> bytes \<Rightarrow> filesystem \<Rightarrow> (js_error + unit) \<times> filesystem" where
  "putRaw ds env k val fs =
     (let ps = encode ds k;
          f = slice 0 (- int (length (extension (opts ds)))) (pfile ps)
      in case mkdirp env (pdir ps) fs of
           (Inl err, fs1) \<Rightarrow> (Inl err, fs1)
         | (Inr u, fs1) \<Rightarrow> writeFile env f val fs1)"

text \<open>\<open>put(key, val)\<close>: every error of the two steps is wrapped.\<close>

definition put :: "datastore \<Rightarrow> env \<Rightarrow> key \<Rightarrow> bytes \<Rightarrow> filesystem \<Rightarrow> (js_error + unit) \<times> filesystem" where
  "put ds env k val fs =
     (let ps = encode ds k
      in case mkdirp env (pdir ps) fs of
           (Inl err, fs1) \<Rightarrow> (Inl (dbWriteFailedError err), fs1)
         | (Inr u, fs1) \<Rightarrow>
             (case writeFile env (pfile ps) val fs1 of
                (Inl err, fs2) \<Rightarrow> (Inl (dbWriteFailedError err), fs2)
              | (Inr u, fs2) \<Rightarrow> (Inr (), fs2)))"

text \<open>\<open>getRaw(key)\<close> and \<open>get(key)\<close>: every read error becomes a not-found error.\<close>

definition getRaw :: "datastore \<Rightarrow> env \<Rightarrow> key \<Rightarrow> filesystem \<Rightarrow> js_error + bytes" where
  "getRaw ds env k fs =
     (let ps = encode ds k;
          f = slice 0 (- int (length (extension (opts ds)))) (pfile ps)
      in case fsReadFile env f fs of
           Inl err \<Rightarrow> Inl (notFoundError err)
         | Inr data \<Rightarrow> Inr data)"

definition get :: "datastore \<Rightarrow> env \<Rightarrow> key \<Rightarrow> filesystem \<Rightarrow> js_error + bytes" where
  "get ds env k fs =
     (let ps = encode ds k
      in case fsReadFile env (pfile ps) fs of
           Inl err \<Rightarrow> Inl (notFoundError err)
         | Inr data \<Rightarrow> Inr data)"

text \<open>\<open>has(key)\<close>: \<open>fs.access\<close> with its default mode, \<open>F_OK\<close>; every error is caught.\<close>

definition has :: "datastore \<Rightarrow> env \<Rightarrow> key \<Rightarrow> filesystem \<Rightarrow> js_error + bool" where
  "has ds env k fs =
     (let ps = encode ds k
      in case fsAccess env (pfile ps) F_OK fs of
           Inl err \<Rightarrow> Inr False
         | Inr u \<Rightarrow> Inr True)"

text \<open>\<open>delete(key)\<close>: \<open>ENOENT\<close> is swallowed, every other error is wrapped.\<close>

definition delete :: "datastore \<Rightarrow> env \<Rightarrow> key \<Rightarrow> filesystem \<Rightarrow> (js_error + unit) \<times> filesystem" where
  "delete ds env k fs =
     (let ps = encode ds k
      in case fsUnlink env (pfile ps) fs of
           (Inr u, fs') \<Rightarrow> (Inr (), fs')
         | (Inl err, fs') \<Rightarrow>
             if code err = Some ''ENOENT'' then (Inr (), fs')
             else (Inl (dbDeleteFailedError err), fs'))"

text \<open>
  \<open>_all(q)\<close>, the generator behind \<open>query\<close>. A query has an optional prefix and the
  \<open>keysOnly\<close> flag; an entry has a key and, unless \<open>keysOnly\<close>, a value. The generator
  is modelled by what its consumer sees: the entries it yields, in order, and the
  error that ends it, if one does (\<open>map\<close> of interface-datastore yields the mapped
  items one by one, and the first one that throws ends the iteration).
\<close>

record query =
  prefix :: "string option"
  keysOnly :: bool

record entry =
  ekey :: key
  evalue :: "bytes option"

fun gen_map :: "('a \<Rightarrow> js_error + 'b) \<Rightarrow> 'a list \<Rightarrow> 'b list \<times> js_error option" where
  "gen_map f [] = ([], None)"
| "gen_map f (x # xs) =
     (case f x of
        Inl e \<Rightarrow> ([], Some e)
      | Inr y \<Rightarrow> (case gen_map f xs of (ys, r) \<Rightarrow> (y # ys, r)))"

definition query_pattern :: "datastore \<Rightarrow> query \<Rightarrow> string" where
  "query_pattern ds q =
     (let pre = (case prefix q of None \<Rightarrow> ''**'' | Some p \<Rightarrow> if p = [] then ''**'' else p)
      in join_str ''/'' (split_str path_sep
           (path_join [path ds, pre, CHR ''*'' # extension (opts ds)])))"

definition all_q :: "datastore \<Rightarrow> env \<Rightarrow> query \<Rightarrow> filesystem \<Rightarrow> entry list \<times> js_error option" where
  "all_q ds env q fs =
     (let files = glob_sync (query_pattern ds q) fs
      in if \<not> keysOnly q then
           gen_map (\<lambda>f. case fsReadFile env f fs of
                          Inl e \<Rightarrow> Inl e
                        | Inr buf \<Rightarrow>
                            (case decode ds f of
                               Inl e \<Rightarrow> Inl e
                             | Inr k \<Rightarrow> Inr \<lparr>ekey = k, evalue = Some buf\<rparr>)) files
         else
           gen_map (\<lambda>f. case decode ds f of
                          Inl e \<Rightarrow> Inl e
                        | Inr k \<Rightarrow> Inr \<lparr>ekey = k, evalue = None\<rparr>) files)"

section \<open>Well-formed inputs\<close>

text \<open>
  A segment of a key or of a path that stands for itself in the file system: not empty,
  not \<open>.\<close> or \<open>..\<close> (which \<open>path.join\<close> resolves away), and without a slash.
\<close>

definition valid_seg :: "string \<Rightarrow> bool" where
  "valid_seg s = (s \<noteq> [] \<and> s \<noteq> ''.'' \<and> s \<noteq> ''..'' \<and> CHR ''/'' \<notin> set s)"

text \<open>The strings \<open>/s1/.../sn\<close> with \<open>n \<ge> 1\<close> valid segments.\<close>

definition clean_path :: "string \<Rightarrow> bool" where
  "clean_path p =
     (p \<noteq> [] \<and> hd p = CHR ''/'' \<and> (\<forall>s \<in> set (tl (split_str CHR ''/'' p)). valid_seg s))"

text \<open>
  A valid key is a sanitized key with a leaf segment: the program writes keys to the
  file system as they are, and leaves sanitizing to its callers. The root key \<open>/\<close> has
  no leaf and is not one of them.
\<close>

definition valid_key :: "key \<Rightarrow> bool" where
  "valid_key k = clean_path (key_toString k)"

text \<open>
  The constructor stores \<open>path.resolve(location)\<close>, a normalized absolute path: the
  root directory \<open>/\<close> or a clean path.
\<close>

definition valid_root :: "pathname \<Rightarrow> bool" where
  "valid_root r = (r = ''/'' \<or> clean_path r)"

text \<open>
  An extension that \<open>path.extname\<close> can give back: a dot, then at least one character,
  none of them a dot or a slash (\<open>.data\<close>).
\<close>

definition proper_ext :: "string \<Rightarrow> bool" where
  "proper_ext e =
     (case e of
        [] \<Rightarrow> False
      | c # cs \<Rightarrow> c = CHR ''.'' \<and> cs \<noteq> [] \<and> CHR ''.'' \<notin> set cs \<and> CHR ''/'' \<notin> set cs)"

text \<open>The non-empty segments of a path.\<close>

definition segs_of :: "string \<Rightarrow> string list" where
  "segs_of p = filter (\<lambda>s. s \<noteq> []) (split_str CHR ''/'' p)"

text \<open>
  The failure of fast-write-atomic that \<open>writeFile\<close> resolves: the rename refused with
  \<open>EPERM\<close>.
\<close>

definition rename_refused :: "js_error option \<Rightarrow> bool" where
  "rename_refused r =
     (case r of None \<Rightarrow> False | Some e \<Rightarrow> code e = Some ''EPERM'' \<and> syscall e = Some ''rename'')"

text \<open>
  The characters with a meaning of their own in a glob pattern (the second one is the
  backslash). A root, a prefix or an extension without them stands for itself in the
  pattern of a query.
\<close>

definition glob_special :: string where
  "glob_special = CHR ''*'' # Char False False True True True False True False # ''?[]{}()''"

definition glob_literal :: "string \<Rightarrow> bool" where
  "glob_literal s = (\<forall>c \<in> set s. c \<notin> set glob_special)"

text \<open>A key whose leaf starts with a dot: its file is a dot file.\<close>

definition dot_leaf :: "key \<Rightarrow> bool" where
  "dot_leaf k = (hd (last (key_list k)) = CHR ''.'')"

text \<open>The prefix of a query: the root key or a valid key.\<close>

definition valid_prefix :: "string \<Rightarrow> bool" where
  "valid_prefix p = (p = ''/'' \<or> valid_key p)"

section \<open>Concrete stores used to exercise the theorems\<close>

definition ex_ds :: datastore where
  "ex_ds = \<lparr>path = ''/db'', opts = default_opts\<rparr>"

text \<open>The same store with another extension.\<close>

definition ex_ds_ext :: "string \<Rightarrow> datastore" where
  "ex_ds_ext e = \<lparr>path = ''/db'', opts = default_opts\<lparr>extension := e\<rparr>\<rparr>"

text \<open>The environment in which every call of one primitive fails with the given error.\<close>

definition env_fail :: "prim \<Rightarrow> js_error \<Rightarrow> env" where
  "env_fail pr e = (\<lambda>p f. if p = pr then Some e else None)"

text \<open>A store directory that holds the key \<open>/a\<close> with the one byte \<open>1\<close>.\<close>

definition fs_a :: filesystem where
  "fs_a = [(''/db'', Dir), (''/db/a.data'', File [1] True True)]"

text \<open>A store at \<open>/x/y\<close> with the two flags of \<open>open\<close> as given.\<close>

definition ex_ds_flags :: "bool \<Rightarrow> bool \<Rightarrow> datastore" where
  "ex_ds_flags c e =
     \<lparr>path = ''/x/y'', opts = \<lparr>createIfMissing = c, errorIfExists = e, extension = ''.data''\<rparr>\<rparr>"

text \<open>The store of the prefix example: the keys \<open>/a/1\<close>, \<open>/a/2\<close> and \<open>/b/1\<close>.\<close>

definition fs_abc :: filesystem where
  "fs_abc =
     [(''/db'', Dir), (''/db/a'', Dir), (''/db/a/1.data'', File [1] True True),
      (''/db/a/2.data'', File [2] True True), (''/db/b'', Dir),
      (''/db/b/1.data'', File [3] True True)]"

text \<open>A store with a key one level below \<open>/a\<close> and a key two levels below it.\<close>

definition fs_deep :: filesystem where
  "fs_deep =
     [(''/db'', Dir), (''/db/a'', Dir), (''/db/a/1.data'', File [1] True True),
      (''/db/a/b'', Dir), (''/db/a/b/3.data'', File [3] True True)]"

text \<open>
  The store after \<open>open\<close> and \<open>putRaw(/a, [1])\<close>: the raw file of \<open>/a\<close> is a regular file
  where the directory of the keys below \<open>/a\<close> would be.
\<close>

definition fs_raw_a :: filesystem where
  "fs_raw_a = [(''/db'', Dir), (''/db/a'', File [1] True True)]"

section \<open>Strings, paths and keys: basic facts\<close>

lemma split_str_nonempty: "split_str c xs \<noteq> []"
  by (induction xs) (auto split: list.splits)

lemma split_str_no_sep: "c \<notin> set s \<Longrightarrow> split_str c s = [s]"
  by (induction s) auto

lemma split_str_append: "split_str c (xs @ c # ys) = split_str c xs @ split_str c ys"
  by (induction xs) (auto split: list.splits simp: split_str_nonempty)

lemma split_str_sep_free: "s \<in> set (split_str c xs) \<Longrightarrow> c \<notin> set s"
  by (induction xs arbitrary: s) (auto split: list.splits if_splits)

lemma join_split: "join_str [c] (split_str c s) = s"
proof (induction s)
  case Nil
  then show ?case by simp
next
  case (Cons x xs)
  show ?case
  proof (cases "x = c")
    case True
    with Cons show ?thesis
      by (cases "split_str c xs") (auto simp: split_str_nonempty)
  next
    case False
    with Cons show ?thesis
      by (cases "split_str c xs"; cases "tl (split_str c xs)") (auto simp: split_str_nonempty)
  qed
qed

lemma path_of_Nil: "path_of [] = []" by (simp add: path_of_def)
lemma path_of_Cons: "path_of (s # ss) = CHR ''/'' # s @ path_of ss" by (simp add: path_of_def)
lemma path_of_append: "path_of (xs @ ys) = path_of xs @ path_of ys" by (simp add: path_of_def)

lemma split_seg_path_of:
  "CHR ''/'' \<notin> set s \<Longrightarrow> \<forall>t \<in> set segs. CHR ''/'' \<notin> set t \<Longrightarrow>
   split_str CHR ''/'' (s @ path_of segs) = s # segs"
proof (induction segs arbitrary: s)
  case Nil
  then show ?case by (simp add: path_of_Nil split_str_no_sep)
next
  case (Cons t ts)
  then show ?case
    by (simp add: path_of_Cons split_str_append split_str_no_sep)
qed

lemma split_path_of:
  "\<forall>t \<in> set segs. CHR ''/'' \<notin> set t \<Longrightarrow> split_str CHR ''/'' (path_of segs) = [] # segs"
  using split_seg_path_of [of "[]" segs] by simp

lemma join_path_of: "segs \<noteq> [] \<Longrightarrow> CHR ''/'' # join_str ''/'' segs = path_of segs"
  by (induction segs rule: induct_list012) (auto simp: path_of_Cons path_of_Nil)

lemma segs_of_append: "segs_of (a @ CHR ''/'' # b) = segs_of a @ segs_of b"
  by (simp add: segs_of_def split_str_append)

lemma segs_of_path_of:
  "\<forall>t \<in> set segs. t \<noteq> [] \<and> CHR ''/'' \<notin> set t \<Longrightarrow> segs_of (path_of segs) = segs"
  by (simp add: segs_of_def split_path_of filter_id_conv)

lemma segs_of_single: "s \<noteq> [] \<Longrightarrow> CHR ''/'' \<notin> set s \<Longrightarrow> segs_of s = [s]"
  by (simp add: segs_of_def split_str_no_sep)

lemma segs_of_Nil: "segs_of [] = []" by (simp add: segs_of_def)

lemma segs_of_slash: "segs_of (CHR ''/'' # s) = segs_of s"
  by (simp add: segs_of_def)

lemma normalizeString_clean:
  "\<forall>s \<in> set ss. s \<noteq> ''.'' \<and> s \<noteq> ''..'' \<Longrightarrow>
   normalizeString a res ss = rev res @ filter (\<lambda>s. s \<noteq> []) ss"
  by (induction ss arbitrary: res) auto

lemma join_str_nonempty: "xs \<noteq> [] \<Longrightarrow> \<forall>x \<in> set xs. x \<noteq> [] \<Longrightarrow> join_str sep xs \<noteq> []"
  by (induction xs rule: induct_list012) auto

lemma segs_of_nonempty: "s \<in> set (segs_of p) \<Longrightarrow> s \<noteq> []"
  by (simp add: segs_of_def)

lemma normalize_abs:
  assumes "p \<noteq> []" "hd p = CHR ''/''" "\<forall>s \<in> set (segs_of p). s \<noteq> ''.'' \<and> s \<noteq> ''..''"
  shows "normalize p = (if segs_of p = [] then ''/''
                        else path_of (segs_of p) @ (if last p = CHR ''/'' then ''/'' else []))"
proof -
  have "\<forall>s \<in> set (split_str CHR ''/'' p). s \<noteq> ''.'' \<and> s \<noteq> ''..''"
    using assms(3) by (auto simp: segs_of_def)
  then have n: "normalizeString False [] (split_str CHR ''/'' p) = segs_of p"
    by (simp add: normalizeString_clean segs_of_def)
  show ?thesis
  proof (cases "segs_of p = []")
    case True
    with assms n show ?thesis
      by (simp add: normalize_def Let_def)
  next
    case False
    then have "join_str ''/'' (segs_of p) \<noteq> []"
      by (simp add: join_str_nonempty segs_of_nonempty)
    with False assms n show ?thesis
      by (simp add: normalize_def Let_def join_path_of [symmetric])
  qed
qed

lemma clean_path_iff:
  "clean_path p \<longleftrightarrow> (\<exists>segs. segs \<noteq> [] \<and> (\<forall>s \<in> set segs. valid_seg s) \<and> p = path_of segs)"
proof
  assume c: "clean_path p"
  then obtain rest where p: "p = CHR ''/'' # rest"
    by (cases p) (auto simp: clean_path_def)
  let ?segs = "split_str CHR ''/'' rest"
  have "p = join_str ''/'' (split_str CHR ''/'' p)" by (simp add: join_split)
  also have "\<dots> = CHR ''/'' # join_str ''/'' ?segs"
    using p by (cases ?segs) (auto simp: split_str_nonempty)
  also have "\<dots> = path_of ?segs" by (simp add: join_path_of split_str_nonempty)
  finally have "p = path_of ?segs" .
  moreover have "\<forall>s \<in> set ?segs. valid_seg s" using c p by (simp add: clean_path_def)
  ultimately show "\<exists>segs. segs \<noteq> [] \<and> (\<forall>s \<in> set segs. valid_seg s) \<and> p = path_of segs"
    using split_str_nonempty by blast
next
  assume "\<exists>segs. segs \<noteq> [] \<and> (\<forall>s \<in> set segs. valid_seg s) \<and> p = path_of segs"
  then obtain segs where s: "segs \<noteq> []" "\<forall>s \<in> set segs. valid_seg s" "p = path_of segs" by blast
  then have "split_str CHR ''/'' p = [] # segs"
    by (simp add: split_path_of valid_seg_def)
  with s show "clean_path p"
    by (cases segs) (auto simp: clean_path_def path_of_Cons)
qed

lemma key_list_path_of:
  "\<forall>s \<in> set segs. valid_seg s \<Longrightarrow> key_list (path_of segs) = segs"
  by (simp add: key_list_def key_toString_def split_path_of valid_seg_def)

lemma last_path_of:
  "segs \<noteq> [] \<Longrightarrow> \<forall>s \<in> set segs. valid_seg s \<Longrightarrow> last (path_of segs) \<noteq> CHR ''/''"
proof (induction segs rule: rev_induct)
  case Nil
  then show ?case by simp
next
  case (snoc x xs)
  then have "x \<noteq> []" "CHR ''/'' \<notin> set x" by (auto simp: valid_seg_def)
  then have "last x \<noteq> CHR ''/''" using last_in_set by metis
  then show ?case using \<open>x \<noteq> []\<close> by (simp add: path_of_append path_of_Cons path_of_Nil)
qed

lemma strip_trailing_id: "last s \<noteq> CHR ''/'' \<Longrightarrow> strip_trailing s = s"
  by simp

lemma Key_path_of:
  "segs \<noteq> [] \<Longrightarrow> \<forall>s \<in> set segs. valid_seg s \<Longrightarrow> Key (path_of segs) = path_of segs"
  using last_path_of [of segs]
  by (cases segs) (auto simp: Key_def Let_def path_of_Cons simp del: strip_trailing.simps intro!: strip_trailing_id)

lemma Key_join:
  assumes "segs \<noteq> []" "\<forall>s \<in> set segs. valid_seg s"
  shows "Key (join_str ''/'' segs) = path_of segs"
proof -
  from assms obtain x xs where segs: "segs = x # xs" by (cases segs) auto
  with assms have x0: "x \<noteq> []" "CHR ''/'' \<notin> set x"
    by (auto simp: valid_seg_def)
  have "hd x \<noteq> CHR ''/''"
  proof (cases x)
    case Nil
    with x0 show ?thesis by simp
  next
    case (Cons a as)
    with x0 show ?thesis by auto
  qed
  with x0 have x: "x \<noteq> []" "hd x \<noteq> CHR ''/''" by simp_all
  have j: "join_str ''/'' segs \<noteq> []"
    by (rule join_str_nonempty) (use assms in \<open>auto simp: valid_seg_def\<close>)
  have "hd (join_str ''/'' segs) = hd x"
    using segs x by (cases xs) auto
  with x j have "Key (join_str ''/'' segs) = strip_trailing (CHR ''/'' # join_str ''/'' segs)"
    by (simp add: Key_def Let_def del: strip_trailing.simps)
  also have "\<dots> = strip_trailing (path_of segs)" using assms by (simp add: join_path_of del: strip_trailing.simps)
  also have "\<dots> = path_of segs" using assms by (intro strip_trailing_id last_path_of)
  finally show ?thesis .
qed

lemma Key_root: "Key ''/'' = ''/''"
  by (simp add: Key_def)

lemma key_parent_path_of:
  assumes "\<forall>s \<in> set (ps @ [leaf]). valid_seg s"
  shows "key_parent (path_of (ps @ [leaf])) = (if ps = [] then ''/'' else path_of ps)"
  using assms
  by (auto simp: key_parent_def Let_def key_list_path_of Key_root Key_join simp del: join_str.simps)

lemma slice_from_drop: "slice_from (int n) s = drop n s"
  by (auto simp: slice_from_def slice_def Let_def min_def)

lemma valid_root_segs:
  assumes "valid_root r"
  shows "r \<noteq> [] \<and> hd r = CHR ''/'' \<and> (\<forall>s \<in> set (segs_of r). valid_seg s) \<and>
         r = (if segs_of r = [] then ''/'' else path_of (segs_of r))"
proof (cases "r = ''/''")
  case True
  then show ?thesis by (simp add: segs_of_def)
next
  case False
  with assms have "clean_path r" by (simp add: valid_root_def)
  then obtain segs where s: "segs \<noteq> []" "\<forall>s \<in> set segs. valid_seg s" "r = path_of segs"
    by (auto simp: clean_path_iff)
  then have "segs_of r = segs" by (simp add: segs_of_path_of valid_seg_def)
  with s show ?thesis by (cases segs) (auto simp: path_of_Cons)
qed

lemma valid_key_segs:
  assumes "valid_key k"
  shows "key_list k \<noteq> [] \<and> (\<forall>s \<in> set (key_list k). valid_seg s) \<and> k = path_of (key_list k)"
proof -
  from assms obtain segs where s: "segs \<noteq> []" "\<forall>s \<in> set segs. valid_seg s" "k = path_of segs"
    by (auto simp: valid_key_def key_toString_def clean_path_iff)
  then have "key_list k = segs" by (simp add: key_list_path_of)
  with s show ?thesis by simp
qed

lemma path_join2: "a \<noteq> [] \<Longrightarrow> b \<noteq> [] \<Longrightarrow> path_join [a, b] = normalize (a @ CHR ''/'' # b)"
  by (simp add: path_join_def)

lemma valid_seg_append_ext:
  assumes "valid_seg leaf" "CHR ''/'' \<notin> set ext"
  shows "leaf @ ext \<noteq> []" "leaf @ ext \<noteq> ''.''" "leaf @ ext \<noteq> ''..''" "CHR ''/'' \<notin> set (leaf @ ext)"
proof -
  from assms(1) have l: "leaf \<noteq> []" "leaf \<noteq> ''.''" "leaf \<noteq> ''..''" "CHR ''/'' \<notin> set leaf"
    by (simp_all add: valid_seg_def)
  show "leaf @ ext \<noteq> []" using l by simp
  show "CHR ''/'' \<notin> set (leaf @ ext)" using l assms(2) by simp
  show "leaf @ ext \<noteq> ''.''" using l by (cases leaf) (auto simp: append_eq_Cons_conv)
  show "leaf @ ext \<noteq> ''..''" using l by (auto simp: append_eq_Cons_conv)
qed

lemma encode_shape:
  assumes r: "valid_root (path ds)" and k: "valid_key k" and e: "CHR ''/'' \<notin> set (extension (opts ds))"
  shows "pfile (encode ds k) =
           path_of (segs_of (path ds) @ butlast (key_list k) @ [last (key_list k) @ extension (opts ds)])"
    and "segs_of (pdir (encode ds k)) = segs_of (path ds) @ butlast (key_list k)"
    and "pdir (encode ds k) \<noteq> [] \<and> hd (pdir (encode ds k)) = CHR ''/''"
proof -
  define rs where "rs = segs_of (path ds)"
  define ps where "ps = butlast (key_list k)"
  define leaf where "leaf = last (key_list k)"
  define ext where "ext = extension (opts ds)"
  define parent where "parent = (if ps = [] then ''/'' else path_of ps)"
  from valid_root_segs [OF r] have
    root: "path ds \<noteq> []" "hd (path ds) = CHR ''/''" "\<forall>s \<in> set rs. valid_seg s"
    unfolding rs_def by simp_all
  from valid_key_segs [OF k] have kl: "key_list k = ps @ [leaf]"
    and kv: "\<forall>s \<in> set (ps @ [leaf]). valid_seg s" and kp: "k = path_of (ps @ [leaf])"
    unfolding ps_def leaf_def by simp_all
  have psv: "\<forall>s \<in> set ps. valid_seg s" and lv: "valid_seg leaf" using kv by simp_all
  have par: "key_parent k = parent"
    unfolding parent_def using key_parent_path_of [OF kv] kp by simp
  have par_ne: "parent \<noteq> []" "hd parent = CHR ''/''"
    unfolding parent_def by (cases ps; simp add: path_of_Cons)+
  have "\<forall>t \<in> set ps. t \<noteq> [] \<and> CHR ''/'' \<notin> set t"
    using psv by (simp add: valid_seg_def)
  then have "segs_of (path_of ps) = ps" by (rule segs_of_path_of)
  moreover have "segs_of ''/'' = []" by (simp add: segs_of_def)
  ultimately have par_segs: "segs_of parent = ps"
    unfolding parent_def by simp
  have par_last: "last parent = CHR ''/'' \<longleftrightarrow> ps = []"
    unfolding parent_def using last_path_of [OF _ psv] by simp
  define name where "name = (if ps = [] then leaf else CHR ''/'' # leaf)"
  have nm: "slice_from (int (length (key_toString (key_parent k)))) (key_toString k) = name"
    unfolding name_def key_toString_def par slice_from_drop
    by (simp add: parent_def kp path_of_append path_of_Cons path_of_Nil)
  define d where "d = path_join [path ds, parent]"
  have dsegs0: "segs_of (path ds @ CHR ''/'' # parent) = rs @ ps"
    by (simp add: segs_of_append par_segs rs_def)
  have d_eq: "d = (if rs @ ps = [] then ''/'' else path_of (rs @ ps) @ (if ps = [] then ''/'' else []))"
  proof -
    have "d = normalize (path ds @ CHR ''/'' # parent)"
      unfolding d_def using root par_ne by (simp add: path_join2)
    also have "\<dots> = (if rs @ ps = [] then ''/'' else path_of (rs @ ps) @ (if ps = [] then ''/'' else []))"
      using root psv par_ne par_last
      by (subst normalize_abs) (auto simp: dsegs0 valid_seg_def)
    finally show ?thesis .
  qed
  have d_ne: "d \<noteq> []" "hd d = CHR ''/''"
    unfolding d_eq by (cases "rs @ ps"; simp add: path_of_Cons)+
  have d_segs: "segs_of d = rs @ ps"
  proof -
    have "\<forall>t \<in> set (rs @ ps). t \<noteq> [] \<and> CHR ''/'' \<notin> set t"
      using root psv by (auto simp: valid_seg_def)
    then have "segs_of (path_of (rs @ ps)) = rs @ ps"
      by (rule segs_of_path_of)
    moreover have "segs_of (path_of (rs @ ps) @ ''/'') = segs_of (path_of (rs @ ps))"
      using segs_of_append [of "path_of (rs @ ps)" "[]"] by (simp add: segs_of_Nil)
    moreover have "segs_of ''/'' = []" by (simp add: segs_of_def)
    ultimately show ?thesis unfolding d_eq by (cases "rs @ ps = []"; cases "ps = []"; simp)
  qed
  have le: "leaf @ ext \<noteq> []" "leaf @ ext \<noteq> ''.''" "leaf @ ext \<noteq> ''..''" "CHR ''/'' \<notin> set (leaf @ ext)"
    using valid_seg_append_ext [OF lv] e unfolding ext_def by blast+
  have ne_segs: "segs_of (name @ ext) = [leaf @ ext]"
    unfolding name_def using le by (simp add: segs_of_slash segs_of_single)
  have ne_ne: "name @ ext \<noteq> []" unfolding name_def using le(1) by auto
  have ne_last: "last (name @ ext) \<noteq> CHR ''/''"
  proof -
    have "last (name @ ext) = last (leaf @ ext)" unfolding name_def using le(1) by auto
    moreover have "last (leaf @ ext) \<in> set (leaf @ ext)" using le(1) last_in_set by blast
    ultimately show ?thesis using le(4) by metis
  qed
  have f_eq: "path_join [d, name @ ext] = path_of (rs @ ps @ [leaf @ ext])"
  proof -
    have fs: "segs_of (d @ CHR ''/'' # name @ ext) = rs @ ps @ [leaf @ ext]"
      by (simp add: segs_of_append d_segs ne_segs)
    have "path_join [d, name @ ext] = normalize (d @ CHR ''/'' # name @ ext)"
      using d_ne ne_ne by (simp add: path_join2)
    also have "\<dots> = path_of (rs @ ps @ [leaf @ ext])"
      using d_ne ne_ne ne_last root psv le
      by (subst normalize_abs) (auto simp: fs valid_seg_def)
    finally show ?thesis .
  qed
  have nm2: "slice_from (int (length parent)) k = name"
    using nm par by (simp add: key_toString_def)
  have enc: "encode ds k = \<lparr>pdir = d, pfile = path_join [d, name @ ext]\<rparr>"
    by (simp add: encode_def Let_def d_def ext_def par key_toString_def nm2)
  show "pfile (encode ds k) =
           path_of (segs_of (path ds) @ butlast (key_list k) @ [last (key_list k) @ extension (opts ds)])"
    unfolding enc using f_eq by (simp add: rs_def ps_def leaf_def ext_def)
  show "segs_of (pdir (encode ds k)) = segs_of (path ds) @ butlast (key_list k)"
    unfolding enc using d_segs by (simp add: rs_def ps_def)
  show "pdir (encode ds k) \<noteq> [] \<and> hd (pdir (encode ds k)) = CHR ''/''"
    unfolding enc using d_ne by simp
qed

lemma basename_path_of:
  assumes "b \<noteq> []" "CHR ''/'' \<notin> set b"
  shows "basename (path_of (xs @ [b])) = b"
proof -
  have r: "rev (path_of (xs @ [b])) = rev b @ CHR ''/'' # rev (path_of xs)"
    by (simp add: path_of_append path_of_Cons path_of_Nil)
  have "hd (rev b) \<in> set b" using assms(1) by (simp add: hd_rev)
  then have h: "hd (rev b) \<noteq> CHR ''/''" using assms(2) by metis
  have "rev b \<noteq> []" using assms(1) by simp
  with h have d: "dropWhile (\<lambda>c. c = CHR ''/'') (rev b @ CHR ''/'' # rev (path_of xs))
             = rev b @ CHR ''/'' # rev (path_of xs)"
    by (cases "rev b") auto
  have t: "takeWhile (\<lambda>c. c \<noteq> CHR ''/'') (rev b @ CHR ''/'' # rev (path_of xs)) = rev b"
    using assms(2) by (subst takeWhile_append2) auto
  show ?thesis unfolding basename_def r d t by simp
qed

lemma extname_proper:
  assumes "leaf \<noteq> []" "CHR ''.'' \<notin> set e" "e \<noteq> []" "basename f = leaf @ CHR ''.'' # e"
  shows "extname f = CHR ''.'' # e"
proof -
  have t: "takeWhile (\<lambda>c. c \<noteq> CHR ''.'') (rev (leaf @ CHR ''.'' # e)) = rev e"
  proof -
    have "rev (leaf @ CHR ''.'' # e) = rev e @ CHR ''.'' # rev leaf" by simp
    moreover have "takeWhile (\<lambda>c. c \<noteq> CHR ''.'') (rev e @ CHR ''.'' # rev leaf) = rev e"
      using assms(2) by (subst takeWhile_append2) auto
    ultimately show ?thesis by (simp only:)
  qed
  have l3: "length (leaf @ CHR ''.'' # e) \<ge> 3" using assms(1,3) by (cases leaf; cases e) auto
  have "leaf @ CHR ''.'' # e \<noteq> ''..''"
  proof
    assume "leaf @ CHR ''.'' # e = ''..''"
    then have "length (leaf @ CHR ''.'' # e) = length ''..''" by (rule arg_cong)
    with l3 show False by simp
  qed
  moreover have "length (leaf @ CHR ''.'' # e) \<noteq> Suc (length e)" using assms(1) by simp
  ultimately show ?thesis
    unfolding extname_def assms(4) Let_def t by simp
qed

lemma decode_encode:
  assumes r: "valid_root (path ds)" and k: "valid_key k" and e: "proper_ext (extension (opts ds))"
  shows "decode ds (pfile (encode ds k)) = Inr k"
proof -
  define rs where "rs = segs_of (path ds)"
  define ps where "ps = butlast (key_list k)"
  define leaf where "leaf = last (key_list k)"
  from e obtain e' where ext: "extension (opts ds) = CHR ''.'' # e'"
    and e': "e' \<noteq> []" "CHR ''.'' \<notin> set e'" "CHR ''/'' \<notin> set e'"
    by (auto simp: proper_ext_def split: list.splits)
  define ext where "ext = CHR ''.'' # e'"
  have ext_slash: "CHR ''/'' \<notin> set (extension (opts ds))" using ext e' by simp
  from valid_root_segs [OF r] have
    root: "\<forall>s \<in> set rs. valid_seg s" "path ds = (if rs = [] then ''/'' else path_of rs)"
    unfolding rs_def by simp_all
  from valid_key_segs [OF k] have kl: "key_list k = ps @ [leaf]"
    and kv: "\<forall>s \<in> set (ps @ [leaf]). valid_seg s" and kp: "k = path_of (ps @ [leaf])"
    unfolding ps_def leaf_def by simp_all
  have lv: "leaf \<noteq> []" "CHR ''/'' \<notin> set leaf" using kv by (simp_all add: valid_seg_def)
  have f: "pfile (encode ds k) = path_of (rs @ ps @ [leaf @ ext])"
    using encode_shape(1) [OF r k ext_slash] by (simp add: rs_def ps_def leaf_def ext_def ext)
  have f2: "pfile (encode ds k) = path_of rs @ k @ ext"
  proof -
    have "pfile (encode ds k) = path_of (rs @ ps @ [leaf @ ext])" by (rule f)
    also have "\<dots> = path_of rs @ path_of (ps @ [leaf]) @ ext"
      by (simp add: path_of_append path_of_Cons path_of_Nil)
    also have "path_of (ps @ [leaf]) = k" by (rule kp [symmetric])
    finally show ?thesis .
  qed
  have "basename (pfile (encode ds k)) = leaf @ ext"
    unfolding f using basename_path_of [of "leaf @ ext" "rs @ ps"] lv e' by (simp add: ext_def)
  then have en: "extname (pfile (encode ds k)) = ext"
    unfolding ext_def using lv e' by (intro extname_proper) auto
  have kne: "k \<noteq> []" "hd k = CHR ''/''" unfolding kp by (cases ps; simp add: path_of_Cons)+
  have sl: "Key (slice (int (length (path ds))) (- int (length ext)) (pfile (encode ds k))) = k"
  proof (cases "rs = []")
    case True
    then have "slice (int (length (path ds))) (- int (length ext)) (pfile (encode ds k)) = tl k"
      using root(2) kne unfolding f2 by (cases k) (auto simp: slice_def Let_def path_of_Nil ext_def)
    moreover have "tl k = join_str ''/'' (ps @ [leaf])"
      unfolding kp using join_path_of [of "ps @ [leaf]"] by (metis list.sel(3) snoc_eq_iff_butlast)
    ultimately show ?thesis using Key_join [OF _ kv] kp by simp
  next
    case False
    then have "slice (int (length (path ds))) (- int (length ext)) (pfile (encode ds k)) = k"
      using root(2) unfolding f2 by (auto simp: slice_def Let_def ext_def)
    then show ?thesis using Key_path_of [OF _ kv] kp by simp
  qed
  show ?thesis
    using en sl by (simp add: decode_def Let_def ext ext_def path_sep_def join_split)
qed

lemma path_of_inj:
  assumes "\<forall>t \<in> set xs. CHR ''/'' \<notin> set t" "\<forall>t \<in> set ys. CHR ''/'' \<notin> set t" "path_of xs = path_of ys"
  shows "xs = ys"
proof -
  have "[] # xs = split_str CHR ''/'' (path_of xs)" using assms(1) by (simp add: split_path_of)
  also have "\<dots> = [] # ys" using assms(2,3) by (simp add: split_path_of)
  finally show ?thesis by simp
qed


text \<open>The root of a constructed store is a valid root.\<close>

lemma normalizeString_valid:
  "\<forall>s \<in> set res. valid_seg s \<Longrightarrow> \<forall>s \<in> set ss. CHR ''/'' \<notin> set s \<Longrightarrow>
   \<forall>s \<in> set (normalizeString False res ss). valid_seg s"
proof (induction ss arbitrary: res)
  case Nil
  then show ?case by simp
next
  case (Cons s ss)
  have tl: "\<forall>s \<in> set ss. CHR ''/'' \<notin> set s" using Cons.prems(2) by simp
  have hd: "CHR ''/'' \<notin> set s" using Cons.prems(2) by simp
  consider (skip) "s = [] \<or> s = ''.''" | (up) "s = ''..''" | (seg) "s \<noteq> []" "s \<noteq> ''.''" "s \<noteq> ''..''"
    by blast
  then show ?case
  proof cases
    case skip
    then have "normalizeString False res (s # ss) = normalizeString False res ss" by auto
    then show ?thesis using Cons.IH [OF Cons.prems(1) tl] by (simp only:)
  next
    case up
    show ?thesis
    proof (cases res)
      case Nil
      with up have "normalizeString False res (s # ss) = normalizeString False [] ss" by simp
      then show ?thesis using Cons.IH [of "[]", OF _ tl] by simp
    next
      case (Cons r rs)
      then have rs: "\<forall>s \<in> set rs. valid_seg s" using Cons.prems(1) by simp
      have "normalizeString False res (s # ss) = normalizeString False res ss \<or>
            normalizeString False res (s # ss) = normalizeString False rs ss"
        using up Cons by simp
      then show ?thesis
        using Cons.IH [OF rs tl] Cons.IH [OF Cons.prems(1) tl] by (elim disjE) (simp_all only:)
    qed
  next
    case seg
    then have e: "normalizeString False res (s # ss) = normalizeString False (s # res) ss" by simp
    have "valid_seg s" unfolding valid_seg_def using seg hd by blast
    with Cons.prems(1) have "\<forall>t \<in> set (s # res). valid_seg t" by simp
    then show ?thesis unfolding e by (rule Cons.IH [OF _ tl])
  qed
qed

lemma constructor_valid_root: "valid_root (path (FsDatastore cwd location arg))"
proof -
  define segs where "segs = normalizeString False []
      (split_str CHR ''/'' (if location = [] then cwd @ ''/''
             else if hd location = CHR ''/'' then location @ ''/''
             else cwd @ ''/'' @ location @ ''/''))"
  have v: "\<forall>s \<in> set segs. valid_seg s"
    unfolding segs_def by (rule normalizeString_valid) (auto dest: split_str_sep_free)
  have p: "path (FsDatastore cwd location arg) = CHR ''/'' # join_str ''/'' segs"
    by (simp add: FsDatastore_def path_resolve_def Let_def segs_def)
  show ?thesis
  proof (cases "segs = []")
    case True
    with p show ?thesis by (simp add: valid_root_def)
  next
    case False
    with p have "path (FsDatastore cwd location arg) = path_of segs" by (simp add: join_path_of)
    with False v have "clean_path (path (FsDatastore cwd location arg))"
      unfolding clean_path_iff by blast
    then show ?thesis by (simp add: valid_root_def)
  qed
qed

section \<open>mkdirp\<close>

lemma mkdir_all_preserves:
  "map_of fs q = Some n \<Longrightarrow> map_of (snd (mkdir_all ds fs)) q = Some n"
  by (induction ds arbitrary: fs) (auto split: option.splits node.splits)

lemma mkdir_all_other:
  "q \<notin> set ds \<Longrightarrow> map_of (snd (mkdir_all ds fs)) q = map_of fs q"
  by (induction ds arbitrary: fs) (auto split: option.splits node.splits simp: map_add_def)

lemma mkdir_all_success:
  "fst (mkdir_all ds fs) = Inr () \<Longrightarrow> d \<in> set ds \<Longrightarrow> map_of (snd (mkdir_all ds fs)) d = Some Dir"
proof (induction ds arbitrary: fs)
  case Nil
  then show ?case by simp
next
  case (Cons a ds)
  show ?case
  proof (cases "map_of fs a")
    case None
    have pres: "map_of (snd (mkdir_all ds (fs @ [(a, Dir)]))) a = Some Dir"
      by (rule mkdir_all_preserves) (simp add: None map_add_def)
    from Cons None show ?thesis
      by (cases "d = a") (auto simp: pres)
  next
    case (Some n)
    show ?thesis
    proof (cases n)
      case (File c r w)
      with Cons Some show ?thesis by simp
    next
      case Dir
      have pres: "map_of (snd (mkdir_all ds fs)) a = Some Dir"
        by (rule mkdir_all_preserves) (simp add: Some Dir)
      from Cons Some Dir show ?thesis
        by (cases "d = a") (auto simp: pres)
    qed
  qed
qed

lemma mkdir_all_ok:
  "\<forall>d \<in> set ds. \<forall>c r w. map_of fs d \<noteq> Some (File c r w) \<Longrightarrow> fst (mkdir_all ds fs) = Inr ()"
proof (induction ds arbitrary: fs)
  case Nil
  then show ?case by simp
next
  case (Cons a ds)
  have "\<forall>d \<in> set ds. \<forall>c r w. map_of (fs @ [(a, Dir)]) d \<noteq> Some (File c r w)"
    using Cons.prems by (auto simp: map_add_def split: option.splits)
  with Cons show ?case
    by (auto split: option.splits node.splits)
qed

lemma ancestors_clean:
  assumes "\<forall>s \<in> set (segs_of p). s \<noteq> ''.'' \<and> s \<noteq> ''..''"
  shows "ancestors p = map (\<lambda>n. path_of (take n (segs_of p))) [1..<Suc (length (segs_of p))]"
proof -
  have "\<forall>s \<in> set (split_str CHR ''/'' p). s \<noteq> ''.'' \<and> s \<noteq> ''..''"
    using assms by (auto simp: segs_of_def)
  then have "normalizeString False [] (split_str CHR ''/'' p) = segs_of p"
    by (simp add: normalizeString_clean segs_of_def)
  then show ?thesis by (simp add: ancestors_def Let_def)
qed

lemma root_in_ancestors:
  assumes "clean_path r"
  shows "r \<in> set (ancestors r)"
proof -
  from assms obtain segs where s: "segs \<noteq> []" "\<forall>s \<in> set segs. valid_seg s" "r = path_of segs"
    by (auto simp: clean_path_iff)
  then have so: "segs_of r = segs" by (simp add: segs_of_path_of valid_seg_def)
  have "ancestors r = map (\<lambda>n. path_of (take n segs)) [1..<Suc (length segs)]"
    using ancestors_clean [of r] s(2) so by (simp add: valid_seg_def)
  moreover have "length segs \<in> set [1..<Suc (length segs)]" using s(1) by (cases segs) auto
  ultimately have "path_of (take (length segs) segs) \<in> set (ancestors r)"
    by (metis (no_types, lifting) image_eqI set_map)
  then show ?thesis using s(3) by simp
qed

lemma longer_not_ancestor:
  assumes "\<forall>t \<in> set (xs @ [b]). valid_seg t" "segs_of p = xs"
  shows "path_of (xs @ [b]) \<notin> set (ancestors p)"
proof
  assume "path_of (xs @ [b]) \<in> set (ancestors p)"
  moreover have "ancestors p = map (\<lambda>n. path_of (take n xs)) [1..<Suc (length xs)]"
    using ancestors_clean [of p] assms by (simp add: valid_seg_def)
  ultimately obtain n where "path_of (xs @ [b]) = path_of (take n xs)" by auto
  moreover have "\<forall>t \<in> set (take n xs). CHR ''/'' \<notin> set t"
    using assms(1) by (auto simp: valid_seg_def dest: in_set_takeD)
  moreover have "\<forall>t \<in> set (xs @ [b]). CHR ''/'' \<notin> set t"
    using assms(1) by (auto simp: valid_seg_def)
  ultimately have "xs @ [b] = take n xs" by (intro path_of_inj) auto
  then have "length (xs @ [b]) = length (take n xs)" by simp
  then show False by simp
qed

lemma mkdirp_frame:
  "q \<notin> set (ancestors p) \<Longrightarrow> map_of (snd (mkdirp env p fs)) q = map_of fs q"
  by (simp add: mkdirp_def mkdir_all_other split: option.splits)

lemma writeFile_frame:
  "q \<noteq> p \<Longrightarrow> map_of (snd (writeFile env p c fs)) q = map_of fs q"
  by (auto simp: writeFile_def writeAtomic_def AList.update_conv'
      split: option.splits node.splits sum.splits prod.splits)

lemma putRaw_frame:
  assumes "q \<notin> set (ancestors (pdir (encode ds k)))"
    and "q \<noteq> slice 0 (- int (length (extension (opts ds)))) (pfile (encode ds k))"
  shows "map_of (snd (putRaw ds env k v fs)) q = map_of fs q"
proof -
  obtain r1 fs1 where m: "mkdirp env (pdir (encode ds k)) fs = (r1, fs1)" by (cases "mkdirp env (pdir (encode ds k)) fs")
  have 1: "map_of fs1 q = map_of fs q" using mkdirp_frame [OF assms(1), of env fs] m by simp
  show ?thesis
  proof (cases r1)
    case (Inl e)
    with m 1 show ?thesis by (simp add: putRaw_def Let_def)
  next
    case (Inr u)
    with m have "snd (putRaw ds env k v fs)
        = snd (writeFile env (slice 0 (- int (length (extension (opts ds)))) (pfile (encode ds k))) v fs1)"
      by (simp add: putRaw_def Let_def)
    with writeFile_frame [OF assms(2)] 1 show ?thesis by simp
  qed
qed

lemma put_frame:
  assumes "q \<notin> set (ancestors (pdir (encode ds k)))" and "q \<noteq> pfile (encode ds k)"
  shows "map_of (snd (put ds env k v fs)) q = map_of fs q"
proof -
  obtain r1 fs1 where m: "mkdirp env (pdir (encode ds k)) fs = (r1, fs1)" by (cases "mkdirp env (pdir (encode ds k)) fs")
  have 1: "map_of fs1 q = map_of fs q" using mkdirp_frame [OF assms(1), of env fs] m by simp
  show ?thesis
  proof (cases r1)
    case (Inl e)
    with m 1 show ?thesis by (simp add: put_def Let_def)
  next
    case (Inr u)
    with m have "snd (put ds env k v fs) = snd (writeFile env (pfile (encode ds k)) v fs1)"
      by (simp add: put_def Let_def split: prod.splits sum.splits)
    with writeFile_frame [OF assms(2)] 1 show ?thesis by simp
  qed
qed

lemma fsReadFile_cong:
  "map_of fs1 p = map_of fs2 p \<Longrightarrow> fsReadFile env p fs1 = fsReadFile env p fs2"
  unfolding fsReadFile_def by (simp split: option.splits)

lemma fsAccess_cong:
  "map_of fs1 p = map_of fs2 p \<Longrightarrow> fsAccess env p m fs1 = fsAccess env p m fs2"
  unfolding fsAccess_def by (simp split: option.splits)


section \<open>The path codec\<close>

text \<open>
  C2, as the code has it. For every valid key (clean, with a leaf segment), a store
  whose root is a resolved path and whose extension is a proper one (a dot followed by
  characters that are neither dots nor slashes, as \<open>.data\<close>), decoding the file of the
  encoded key gives the key back.
\<close>

theorem decode_encode_roundtrip:
  assumes "valid_root (path ds)" and "valid_key k" and "proper_ext (extension (opts ds))"
  shows "decode ds (pfile (encode ds k)) = Inr k"
  using assms by (rule decode_encode)

theorem decode_encode_roundtrip_witness:
  "valid_root (path ex_ds) \<and> valid_key ''/a/b.c'' \<and> proper_ext (extension (opts ex_ds)) \<and>
   pfile (encode ex_ds ''/a/b.c'') = ''/db/a/b.c.data'' \<and>
   decode ex_ds (pfile (encode ex_ds ''/a/b.c'')) = Inr ''/a/b.c''"
proof -
  have r: "valid_root (path ex_ds)" by code_simp
  have k: "valid_key ''/a/b.c''" by code_simp
  have e: "proper_ext (extension (opts ex_ds))" by code_simp
  have f: "pfile (encode ex_ds ''/a/b.c'') = ''/db/a/b.c.data''" by code_simp
  from decode_encode_roundtrip [OF r k e] r k e f show ?thesis by simp
qed

text \<open>
  C2 as stated fails for a configured extension that \<open>path.extname\<close> never returns:
  with the extension \<open>.tar.gz\<close> the file of the valid key \<open>/a\<close> is refused by \<open>_decode\<close>,
  whose guard compares \<open>path.extname(file)\<close>, here \<open>.gz\<close>, with the configured extension.
  With the empty extension the guard passes and \<open>slice(this.path.length, -0)\<close> is empty:
  the file of \<open>/a\<close> decodes to the root key.
\<close>

theorem decode_encode_counterexample:
  "valid_key ''/a'' \<and>
   pfile (encode (ex_ds_ext ''.tar.gz'') ''/a'') = ''/db/a.tar.gz'' \<and>
   decode (ex_ds_ext ''.tar.gz'') (pfile (encode (ex_ds_ext ''.tar.gz'') ''/a''))
     = Inl (Error ''Invalid extension: .gz'') \<and>
   pfile (encode (ex_ds_ext []) ''/a'') = ''/db/a'' \<and>
   decode (ex_ds_ext []) (pfile (encode (ex_ds_ext []) ''/a'')) = Inr ''/''"
  by code_simp

section \<open>open\<close>

text \<open>
  C6. \<open>open\<close> fails with \<open>ERR_DB_OPEN_FAILED\<close> when the root exists and \<open>errorIfExists\<close>
  is set; it fails with \<open>ERR_NOT_FOUND\<close> when the root is absent and \<open>createIfMissing\<close>
  is not set; when the root is absent and \<open>createIfMissing\<close> is set it is the recursive
  creation of the root, which succeeds and leaves the root and its ancestors as
  directories whenever the environment does not fail it and no ancestor is a file;
  when the root exists and \<open>errorIfExists\<close> is not set it succeeds and changes nothing.
\<close>

theorem open_contract:
  "(existsSync (path ds) fs \<and> errorIfExists (opts ds)
      \<longrightarrow> (\<exists>e. open ds env fs = (Inl e, fs) \<and> code e = Some ''ERR_DB_OPEN_FAILED'')) \<and>
   (\<not> existsSync (path ds) fs \<and> \<not> createIfMissing (opts ds)
      \<longrightarrow> (\<exists>e. open ds env fs = (Inl e, fs) \<and> code e = Some ''ERR_NOT_FOUND'')) \<and>
   (\<not> existsSync (path ds) fs \<and> createIfMissing (opts ds)
      \<longrightarrow> open ds env fs = mkdirp env (path ds) fs) \<and>
   (\<not> existsSync (path ds) fs \<and> createIfMissing (opts ds) \<and> valid_root (path ds) \<and>
    env PMkdirp (path ds) = None \<and>
    (\<forall>d \<in> set (ancestors (path ds)). \<forall>c r w. map_of fs d \<noteq> Some (File c r w))
      \<longrightarrow> fst (open ds env fs) = Inr () \<and>
          existsSync (path ds) (snd (open ds env fs)) \<and>
          (\<forall>d \<in> set (ancestors (path ds)). map_of (snd (open ds env fs)) d = Some Dir)) \<and>
   (existsSync (path ds) fs \<and> \<not> errorIfExists (opts ds) \<longrightarrow> open ds env fs = (Inr (), fs))"
proof -
  have 1: "existsSync (path ds) fs \<and> errorIfExists (opts ds)
      \<longrightarrow> (\<exists>e. open ds env fs = (Inl e, fs) \<and> code e = Some ''ERR_DB_OPEN_FAILED'')"
    by (simp add: open_def dbOpenFailedError_def errcode_def Error_def)
  have 2: "\<not> existsSync (path ds) fs \<and> \<not> createIfMissing (opts ds)
      \<longrightarrow> (\<exists>e. open ds env fs = (Inl e, fs) \<and> code e = Some ''ERR_NOT_FOUND'')"
    by (simp add: open_def notFoundError_def errcode_def Error_def)
  have 3: "\<not> existsSync (path ds) fs \<and> createIfMissing (opts ds)
      \<longrightarrow> open ds env fs = mkdirp env (path ds) fs"
    by (simp add: open_def notFoundError_def errcode_def Error_def)
  have 5: "existsSync (path ds) fs \<and> \<not> errorIfExists (opts ds) \<longrightarrow> open ds env fs = (Inr (), fs)"
    by (simp add: open_def)
  have 4: "\<not> existsSync (path ds) fs \<and> createIfMissing (opts ds) \<and> valid_root (path ds) \<and>
    env PMkdirp (path ds) = None \<and>
    (\<forall>d \<in> set (ancestors (path ds)). \<forall>c r w. map_of fs d \<noteq> Some (File c r w))
      \<longrightarrow> fst (open ds env fs) = Inr () \<and>
          existsSync (path ds) (snd (open ds env fs)) \<and>
          (\<forall>d \<in> set (ancestors (path ds)). map_of (snd (open ds env fs)) d = Some Dir)"
  proof (intro impI, elim conjE)
    assume a: "\<not> existsSync (path ds) fs" "createIfMissing (opts ds)" "valid_root (path ds)"
      "env PMkdirp (path ds) = None"
      "\<forall>d \<in> set (ancestors (path ds)). \<forall>c r w. map_of fs d \<noteq> Some (File c r w)"
    from 3 a have o: "open ds env fs = mkdir_all (ancestors (path ds)) fs"
      by (simp add: mkdirp_def)
    have ok: "fst (mkdir_all (ancestors (path ds)) fs) = Inr ()"
      using a(5) by (rule mkdir_all_ok)
    have dirs: "\<forall>d \<in> set (ancestors (path ds)). map_of (snd (mkdir_all (ancestors (path ds)) fs)) d = Some Dir"
      using ok by (auto intro: mkdir_all_success)
    from a(1,3) have "clean_path (path ds)" by (auto simp: existsSync_def valid_root_def)
    then have "path ds \<in> set (ancestors (path ds))" by (rule root_in_ancestors)
    with dirs have "existsSync (path ds) (snd (mkdir_all (ancestors (path ds)) fs))"
      by (simp add: existsSync_def)
    with ok dirs show "fst (open ds env fs) = Inr () \<and>
          existsSync (path ds) (snd (open ds env fs)) \<and>
          (\<forall>d \<in> set (ancestors (path ds)). map_of (snd (open ds env fs)) d = Some Dir)"
      unfolding o by simp
  qed
  from 1 2 3 4 5 show ?thesis by blast
qed

theorem open_contract_witness:
  "existsSync (path (ex_ds_flags True True)) [(''/x'', Dir), (''/x/y'', Dir)] \<and>
   errorIfExists (opts (ex_ds_flags True True)) \<and>
   (\<exists>e. open (ex_ds_flags True True) no_faults [(''/x'', Dir), (''/x/y'', Dir)]
          = (Inl e, [(''/x'', Dir), (''/x/y'', Dir)]) \<and> code e = Some ''ERR_DB_OPEN_FAILED'') \<and>
   \<not> existsSync (path (ex_ds_flags False False)) [] \<and>
   \<not> createIfMissing (opts (ex_ds_flags False False)) \<and>
   (\<exists>e. open (ex_ds_flags False False) no_faults [] = (Inl e, []) \<and> code e = Some ''ERR_NOT_FOUND'') \<and>
   createIfMissing (opts (ex_ds_flags True False)) \<and>
   valid_root (path (ex_ds_flags True False)) \<and>
   fst (open (ex_ds_flags True False) no_faults []) = Inr () \<and>
   snd (open (ex_ds_flags True False) no_faults []) = [(''/x'', Dir), (''/x/y'', Dir)] \<and>
   existsSync (path (ex_ds_flags True False)) (snd (open (ex_ds_flags True False) no_faults [])) \<and>
   open (ex_ds_flags True False) no_faults [(''/x'', Dir), (''/x/y'', Dir)]
     = (Inr (), [(''/x'', Dir), (''/x/y'', Dir)])"
proof -
  have a1: "existsSync (path (ex_ds_flags True True)) [(''/x'', Dir), (''/x/y'', Dir)]" by code_simp
  have a2: "errorIfExists (opts (ex_ds_flags True True))" by code_simp
  have b1: "\<not> existsSync (path (ex_ds_flags False False)) []" by code_simp
  have b2: "\<not> createIfMissing (opts (ex_ds_flags False False))" by code_simp
  have c1: "\<not> existsSync (path (ex_ds_flags True False)) []" by code_simp
  have c2: "createIfMissing (opts (ex_ds_flags True False))" by code_simp
  have c3: "valid_root (path (ex_ds_flags True False))" by code_simp
  have c4: "no_faults PMkdirp (path (ex_ds_flags True False)) = None" by (simp add: no_faults_def)
  have c5: "\<forall>d \<in> set (ancestors (path (ex_ds_flags True False))). \<forall>c r w. map_of [] d \<noteq> Some (File c r w)"
    by simp
  have c6: "snd (open (ex_ds_flags True False) no_faults []) = [(''/x'', Dir), (''/x/y'', Dir)]"
    by code_simp
  have d1: "existsSync (path (ex_ds_flags True False)) [(''/x'', Dir), (''/x/y'', Dir)]" by code_simp
  have d2: "\<not> errorIfExists (opts (ex_ds_flags True False))" by code_simp
  note t1 = open_contract [of "ex_ds_flags True True" "[(''/x'', Dir), (''/x/y'', Dir)]" no_faults]
  note t2 = open_contract [of "ex_ds_flags False False" "[]" no_faults]
  note t3 = open_contract [of "ex_ds_flags True False" "[]" no_faults]
  note t4 = open_contract [of "ex_ds_flags True False" "[(''/x'', Dir), (''/x/y'', Dir)]" no_faults]
  from t1 a1 a2 have 1: "\<exists>e. open (ex_ds_flags True True) no_faults [(''/x'', Dir), (''/x/y'', Dir)]
          = (Inl e, [(''/x'', Dir), (''/x/y'', Dir)]) \<and> code e = Some ''ERR_DB_OPEN_FAILED''"
    by blast
  from t2 b1 b2 have 2: "\<exists>e. open (ex_ds_flags False False) no_faults [] = (Inl e, []) \<and>
          code e = Some ''ERR_NOT_FOUND''"
    by blast
  from t3 c1 c2 c3 c4 c5 have 3: "fst (open (ex_ds_flags True False) no_faults []) = Inr () \<and>
      existsSync (path (ex_ds_flags True False)) (snd (open (ex_ds_flags True False) no_faults []))"
    by blast
  from t4 d1 d2 have 4: "open (ex_ds_flags True False) no_faults [(''/x'', Dir), (''/x/y'', Dir)]
     = (Inr (), [(''/x'', Dir), (''/x/y'', Dir)])"
    by blast
  from a1 a2 1 b1 b2 2 c2 c3 3 c6 4 show ?thesis by blast
qed

section \<open>put and get\<close>

lemma writeFile_cases:
  "writeFile env p c fs = (r, fs') \<Longrightarrow>
     (r = Inr () \<and> fs' = AList.update p (File c True True) fs \<and> \<not> rename_refused (env PWriteAtomic p))
   \<or> (r = Inr () \<and> fs' = fs \<and> rename_refused (env PWriteAtomic p) \<and>
       fsAccess env p (F_OK OR W_OK) fs = Inr ())
   \<or> (\<exists>e. r = Inl e \<and> fs' = fs)"
  by (auto simp: writeFile_def writeAtomic_def rename_refused_def sys_error_def
      split: option.splits node.splits sum.splits if_splits prod.splits dest: sym)

text \<open>
  C1, as the code has it. When \<open>put(k, v)\<close> succeeded and its atomic write was not the
  refused rename that \<open>writeFile\<close> resolves by leaving the destination as it is, a
  \<open>get(k)\<close> that follows it, its read not failed by the environment, returns exactly
  \<open>v\<close>; \<open>v\<close> may be empty.
\<close>

theorem put_get_roundtrip:
  assumes "put ds env k v fs = (Inr (), fs')"
    and "\<not> rename_refused (env PWriteAtomic (pfile (encode ds k)))"
    and "env' PReadFile (pfile (encode ds k)) = None"
  shows "get ds env' k fs' = Inr v"
proof -
  from assms(1) obtain fs1 where
    w: "writeFile env (pfile (encode ds k)) v fs1 = (Inr (), fs')"
    by (auto simp: put_def Let_def split: prod.splits sum.splits)
  from writeFile_cases [OF w] assms(2)
  have "fs' = AList.update (pfile (encode ds k)) (File v True True) fs1" by auto
  then have "map_of fs' (pfile (encode ds k)) = Some (File v True True)"
    by (simp add: AList.update_conv')
  with assms(3) show ?thesis
    by (simp add: get_def Let_def fsReadFile_def)
qed

theorem put_get_roundtrip_witness:
  "put ex_ds no_faults ''/a'' [] fs_a = (Inr (), [(''/db'', Dir), (''/db/a.data'', File [] True True)]) \<and>
   \<not> rename_refused (no_faults PWriteAtomic (pfile (encode ex_ds ''/a''))) \<and>
   no_faults PReadFile (pfile (encode ex_ds ''/a'')) = None \<and>
   get ex_ds no_faults ''/a'' [(''/db'', Dir), (''/db/a.data'', File [] True True)] = Inr []"
proof -
  have p: "put ex_ds no_faults ''/a'' [] fs_a
             = (Inr (), [(''/db'', Dir), (''/db/a.data'', File [] True True)])"
    by code_simp
  have w: "\<not> rename_refused (no_faults PWriteAtomic (pfile (encode ex_ds ''/a'')))"
    by (simp add: no_faults_def rename_refused_def)
  have r: "no_faults PReadFile (pfile (encode ex_ds ''/a'')) = None"
    by (simp add: no_faults_def)
  from put_get_roundtrip [where env = no_faults and env' = no_faults, OF p w r] p w r
  show ?thesis by simp
qed

text \<open>
  C1 as stated fails on the resolved rename: the store holds \<open>/a\<close> with the byte \<open>1\<close>,
  the rename of \<open>put(/a, [2])\<close> is refused with \<open>EPERM\<close>, the destination passes the
  access check, \<open>put\<close> succeeds without having written, and \<open>get(/a)\<close> returns the
  byte \<open>1\<close>.
\<close>

theorem put_get_counterexample:
  "put ex_ds (env_fail PWriteAtomic (sys_error ''EPERM'' ''rename'')) ''/a'' [2] fs_a = (Inr (), fs_a) \<and>
   get ex_ds no_faults ''/a'' fs_a = Inr [1] \<and>
   get ex_ds no_faults ''/a'' fs_a \<noteq> Inr [2]"
  by code_simp

text \<open>Every failure of \<open>put\<close> carries the code of a failed write.\<close>

lemma put_error_code:
  "fst (put ds env k v fs) = Inl e \<Longrightarrow> code e = Some ''ERR_DB_WRITE_FAILED''"
  by (auto simp: put_def Let_def dbWriteFailedError_def errcode_def split: prod.splits sum.splits)

text \<open>
  C4 at its failing input. \<open>mkdirp\<close> fails with \<open>EACCES\<close>: \<open>putRaw\<close> rejects with that
  very error, its code still \<open>EACCES\<close>, where \<open>put\<close> on the same input rejects with
  the error wrapped as a failed write.
\<close>

theorem putRaw_error_not_wrapped:
  "putRaw ex_ds (env_fail PMkdirp (sys_error ''EACCES'' ''mkdir'')) ''/a'' [1] []
     = (Inl (sys_error ''EACCES'' ''mkdir''), []) \<and>
   code (sys_error ''EACCES'' ''mkdir'') = Some ''EACCES'' \<and>
   put ex_ds (env_fail PMkdirp (sys_error ''EACCES'' ''mkdir'')) ''/a'' [1] []
     = (Inl (dbWriteFailedError (sys_error ''EACCES'' ''mkdir'')), []) \<and>
   code (dbWriteFailedError (sys_error ''EACCES'' ''mkdir'')) = Some ''ERR_DB_WRITE_FAILED''"
  by (simp add: putRaw_def put_def mkdirp_def env_fail_def Let_def sys_error_def
      dbWriteFailedError_def errcode_def)

section \<open>writeFile\<close>

text \<open>What \<open>writeFile\<close> does with the failures of the atomic write.\<close>

lemma writeFile_other_error:
  "fst (writeAtomic env p c fs) = Inl err \<Longrightarrow>
   \<not> (code err = Some ''EPERM'' \<and> syscall err = Some ''rename'') \<Longrightarrow>
   writeFile env p c fs = (Inl err, fs)"
  by (auto simp: writeFile_def writeAtomic_def
      split: option.splits node.splits sum.splits if_splits prod.splits)

lemma writeFile_race:
  "env PWriteAtomic p = Some err \<Longrightarrow> code err = Some ''EPERM'' \<Longrightarrow> syscall err = Some ''rename'' \<Longrightarrow>
   writeFile env p c fs =
     (case fsAccess env p (F_OK OR W_OK) fs of Inl e \<Rightarrow> (Inl e, fs) | Inr u \<Rightarrow> (Inr (), fs))"
  by (simp add: writeFile_def writeAtomic_def)

text \<open>
  C5 at its failing input. The destination exists and is writable but not readable,
  and the rename is refused with \<open>EPERM\<close>: \<open>writeFile\<close> asks \<open>fs.access\<close> for
  \<open>F_OK | W_OK\<close> only, so it returns success although a check for \<open>R_OK\<close> fails and
  the file cannot be read.
\<close>

theorem writeFile_race_skips_read_check:
  "writeFile (env_fail PWriteAtomic (sys_error ''EPERM'' ''rename'')) ''/db/a.data'' [2]
      [(''/db'', Dir), (''/db/a.data'', File [1] False True)]
     = (Inr (), [(''/db'', Dir), (''/db/a.data'', File [1] False True)]) \<and>
   fsAccess no_faults ''/db/a.data'' R_OK [(''/db'', Dir), (''/db/a.data'', File [1] False True)]
     = Inl (sys_error ''EACCES'' ''access'') \<and>
   fsReadFile no_faults ''/db/a.data'' [(''/db'', Dir), (''/db/a.data'', File [1] False True)]
     = Inl (sys_error ''EACCES'' ''open'')"
  by (simp add: writeFile_def writeAtomic_def env_fail_def no_faults_def sys_error_def fsAccess_def
      fsReadFile_def F_OK_def W_OK_def R_OK_def X_OK_def)

section \<open>delete\<close>

lemma path_of_snoc_ne: "ss \<noteq> [] \<Longrightarrow> path_of ss \<noteq> []"
  by (cases ss) (simp_all add: path_of_Cons)

lemma walk_after_delete:
  "walk fs d segs = Inr (File c r w) \<Longrightarrow>
   walk (AList.delete (d @ path_of segs) fs) d segs = Inl ''ENOENT''"
proof (induction segs arbitrary: d)
  case Nil
  then show ?case by simp
next
  case (Cons s ss)
  from Cons.prems have len: "\<not> length s > 255"
    by (auto split: if_splits)
  from Cons.prems len obtain n where n: "map_of fs (d @ CHR ''/'' # s) = Some n"
    by (auto split: option.splits)
  show ?case
  proof (cases "ss = []")
    case True
    then show ?thesis using len by (simp add: path_of_Cons path_of_Nil AList.delete_conv')
  next
    case False
    with Cons.prems len n have nd: "n = Dir" and w: "walk fs (d @ CHR ''/'' # s) ss = Inr (File c r w)"
      by (auto split: node.splits)
    have ne: "d @ CHR ''/'' # s \<noteq> d @ path_of (s # ss)"
      using path_of_snoc_ne [OF False] by (simp add: path_of_Cons)
    have p: "d @ path_of (s # ss) = (d @ CHR ''/'' # s) @ path_of ss"
      by (simp add: path_of_Cons)
    have m: "map_of (AList.delete (d @ path_of (s # ss)) fs) (d @ CHR ''/'' # s) = Some Dir"
      using ne n nd by (simp add: AList.delete_conv')
    have "walk (AList.delete ((d @ CHR ''/'' # s) @ path_of ss) fs) (d @ CHR ''/'' # s) ss = Inl ''ENOENT''"
      using w by (rule Cons.IH)
    then show ?thesis
      using len False m unfolding p [symmetric] by simp
  qed
qed

lemma fsUnlink_again:
  assumes "fsUnlink env p fs = (Inr (), fs')"
  shows "fsUnlink env p fs' = (Inl (sys_error ''ENOENT'' ''unlink''), fs')"
proof -
  let ?segs = "normalizeString False [] (split_str CHR ''/'' p)"
  from assms have e: "env PUnlink p = None"
    by (auto simp: fsUnlink_def split: option.splits)
  from assms e obtain c r w where f: "resolve_path fs p = Inr (File c r w)"
    and fs': "fs' = AList.delete (path_of ?segs) fs"
    by (auto simp: fsUnlink_def split: sum.splits node.splits)
  from f have len: "\<not> length p > 4095" and w: "walk fs [] ?segs = Inr (File c r w)"
    by (auto simp: resolve_path_def split: if_splits)
  from walk_after_delete [OF w] have "walk fs' [] ?segs = Inl ''ENOENT''"
    by (simp add: fs')
  with len have "resolve_path fs' p = Inl ''ENOENT''" by (simp add: resolve_path_def)
  with e show ?thesis by (simp add: fsUnlink_def)
qed

lemma fsUnlink_error_state: "fsUnlink env p fs = (Inl e, fs') \<Longrightarrow> fs' = fs"
  by (auto simp: fsUnlink_def split: option.splits sum.splits node.splits)

lemma delete_result:
  "delete ds env k fs =
     (case fsUnlink env (pfile (encode ds k)) fs of
        (Inr u, fs') \<Rightarrow> (Inr (), fs')
      | (Inl err, fs') \<Rightarrow>
          if code err = Some ''ENOENT'' then (Inr (), fs')
          else (Inl (dbDeleteFailedError err), fs'))"
  by (simp add: delete_def Let_def)

lemma delete_twice:
  "snd (delete ds env k (snd (delete ds env k fs))) = snd (delete ds env k fs) \<and>
   (fst (delete ds env k fs) = Inr ()
      \<longrightarrow> fst (delete ds env k (snd (delete ds env k fs))) = Inr ())"
proof -
  let ?f = "pfile (encode ds k)"
  obtain r fs' where u: "fsUnlink env ?f fs = (r, fs')" by (cases "fsUnlink env ?f fs")
  show ?thesis
  proof (cases r)
    case (Inl e)
    with u have "fs' = fs" by (auto dest: fsUnlink_error_state)
    with u Inl show ?thesis by (simp add: delete_result)
  next
    case (Inr x)
    with u have u1: "fsUnlink env ?f fs = (Inr (), fs')" by simp
    from fsUnlink_again [OF u1] u1 show ?thesis
      by (simp add: delete_result sys_error_def)
  qed
qed

text \<open>
  C7, as the code has it. \<open>delete\<close> succeeds and changes nothing when the removal
  reports the file absent, which is \<open>ENOENT\<close>: the file or a directory on its path
  is missing, no component before that is a regular file, and no name is over-long.
  A second \<open>delete\<close> leaves the state the first one left, and succeeds when the first
  one did. Every failure of the removal other than \<open>ENOENT\<close> is raised as a failed
  delete.
\<close>

theorem delete_contract:
  "(env PUnlink (pfile (encode ds k)) = None \<and> resolve_path fs (pfile (encode ds k)) = Inl ''ENOENT''
      \<longrightarrow> delete ds env k fs = (Inr (), fs)) \<and>
   snd (delete ds env k (snd (delete ds env k fs))) = snd (delete ds env k fs) \<and>
   (fst (delete ds env k fs) = Inr ()
      \<longrightarrow> fst (delete ds env k (snd (delete ds env k fs))) = Inr ()) \<and>
   (\<forall>err. fst (fsUnlink env (pfile (encode ds k)) fs) = Inl err \<and> code err \<noteq> Some ''ENOENT''
      \<longrightarrow> delete ds env k fs = (Inl (dbDeleteFailedError err), fs)) \<and>
   (\<forall>e. fst (delete ds env k fs) = Inl e \<longrightarrow> code e = Some ''ERR_DB_DELETE_FAILED'')"
proof -
  let ?f = "pfile (encode ds k)"
  have 1: "env PUnlink ?f = None \<and> resolve_path fs ?f = Inl ''ENOENT''
      \<longrightarrow> delete ds env k fs = (Inr (), fs)"
    by (simp add: delete_result fsUnlink_def sys_error_def)
  have 4: "\<forall>err. fst (fsUnlink env ?f fs) = Inl err \<and> code err \<noteq> Some ''ENOENT''
      \<longrightarrow> delete ds env k fs = (Inl (dbDeleteFailedError err), fs)"
  proof (intro allI impI, elim conjE)
    fix err assume a: "fst (fsUnlink env ?f fs) = Inl err" "code err \<noteq> Some ''ENOENT''"
    obtain fs' where u: "fsUnlink env ?f fs = (Inl err, fs')"
      using a(1) by (cases "fsUnlink env ?f fs") auto
    then have "fs' = fs" by (rule fsUnlink_error_state)
    with u a(2) show "delete ds env k fs = (Inl (dbDeleteFailedError err), fs)"
      by (simp add: delete_result)
  qed
  have 5: "\<forall>e. fst (delete ds env k fs) = Inl e \<longrightarrow> code e = Some ''ERR_DB_DELETE_FAILED''"
    by (auto simp: delete_result dbDeleteFailedError_def errcode_def split: prod.splits sum.splits if_splits)
  from 1 delete_twice [of ds env k fs] 4 5 show ?thesis by blast
qed

theorem delete_contract_witness:
  "no_faults PUnlink (pfile (encode ex_ds ''/a'')) = None \<and>
   resolve_path [(''/db'', Dir)] (pfile (encode ex_ds ''/a'')) = Inl ''ENOENT'' \<and>
   delete ex_ds no_faults ''/a'' [(''/db'', Dir)] = (Inr (), [(''/db'', Dir)]) \<and>
   fst (delete ex_ds no_faults ''/a'' fs_a) = Inr () \<and>
   snd (delete ex_ds no_faults ''/a'' fs_a) = [(''/db'', Dir)] \<and>
   fst (delete ex_ds no_faults ''/a'' (snd (delete ex_ds no_faults ''/a'' fs_a))) = Inr () \<and>
   snd (delete ex_ds no_faults ''/a'' (snd (delete ex_ds no_faults ''/a'' fs_a))) = [(''/db'', Dir)] \<and>
   fst (fsUnlink (env_fail PUnlink (sys_error ''EACCES'' ''unlink'')) (pfile (encode ex_ds ''/a'')) fs_a)
     = Inl (sys_error ''EACCES'' ''unlink'') \<and>
   delete ex_ds (env_fail PUnlink (sys_error ''EACCES'' ''unlink'')) ''/a'' fs_a
     = (Inl (dbDeleteFailedError (sys_error ''EACCES'' ''unlink'')), fs_a)"
proof -
  have a: "resolve_path [(''/db'', Dir)] (pfile (encode ex_ds ''/a'')) = Inl ''ENOENT''" by code_simp
  have b: "no_faults PUnlink (pfile (encode ex_ds ''/a'')) = None" by (simp add: no_faults_def)
  have c: "fst (delete ex_ds no_faults ''/a'' fs_a) = Inr ()" by code_simp
  have d: "snd (delete ex_ds no_faults ''/a'' fs_a) = [(''/db'', Dir)]" by code_simp
  have e: "fst (fsUnlink (env_fail PUnlink (sys_error ''EACCES'' ''unlink''))
                  (pfile (encode ex_ds ''/a'')) fs_a) = Inl (sys_error ''EACCES'' ''unlink'')"
    by (simp add: fsUnlink_def env_fail_def)
  have f: "code (sys_error ''EACCES'' ''unlink'') \<noteq> Some ''ENOENT''"
    by (simp add: sys_error_def)
  note t1 = delete_contract [of no_faults ex_ds "''/a''" "[(''/db'', Dir)]"]
  note t2 = delete_contract [of no_faults ex_ds "''/a''" fs_a]
  note t3 = delete_contract [of "env_fail PUnlink (sys_error ''EACCES'' ''unlink'')" ex_ds "''/a''" fs_a]
  from t1 a b have 1: "delete ex_ds no_faults ''/a'' [(''/db'', Dir)] = (Inr (), [(''/db'', Dir)])"
    by blast
  from t2 c have 2: "fst (delete ex_ds no_faults ''/a'' (snd (delete ex_ds no_faults ''/a'' fs_a))) = Inr ()"
    by blast
  from t2 d have 3: "snd (delete ex_ds no_faults ''/a'' (snd (delete ex_ds no_faults ''/a'' fs_a)))
                      = [(''/db'', Dir)]"
    by simp
  from t3 e f have 4: "delete ex_ds (env_fail PUnlink (sys_error ''EACCES'' ''unlink'')) ''/a'' fs_a
                        = (Inl (dbDeleteFailedError (sys_error ''EACCES'' ''unlink'')), fs_a)"
    by blast
  from a b c d e 1 2 3 4 show ?thesis by blast
qed

text \<open>
  C7 as stated fails where the file is absent and the removal reports something else
  than \<open>ENOENT\<close>. After \<open>open\<close> and \<open>putRaw(/a, [1])\<close> the path \<open>/db/a\<close> is a regular
  file; the file of the key \<open>/a/b\<close>, \<open>/db/a/b.data\<close>, is absent and \<open>has\<close> says so,
  but its removal is \<open>ENOTDIR\<close>, and \<open>delete(/a/b)\<close> raises a failed delete.
\<close>

theorem delete_counterexample:
  "snd (putRaw ex_ds no_faults ''/a'' [1] (snd (open ex_ds no_faults []))) = fs_raw_a \<and>
   map_of fs_raw_a (pfile (encode ex_ds ''/a/b'')) = None \<and>
   has ex_ds no_faults ''/a/b'' fs_raw_a = Inr False \<and>
   delete ex_ds no_faults ''/a/b'' fs_raw_a
     = (Inl (dbDeleteFailedError (sys_error ''ENOTDIR'' ''unlink'')), fs_raw_a)"
  by code_simp

section \<open>has\<close>

text \<open>
  C8. For every key, \<open>has\<close> never raises and resolves to a boolean: \<open>True\<close> exactly when
  the access check on the encoded file succeeds, \<open>False\<close> on every access error,
  whatever the error is.
\<close>

theorem has_never_raises:
  "(\<exists>b. has ds env k fs = Inr b) \<and>
   (has ds env k fs = Inr True \<longleftrightarrow> fsAccess env (pfile (encode ds k)) F_OK fs = Inr ()) \<and>
   (\<forall>e. fsAccess env (pfile (encode ds k)) F_OK fs = Inl e \<longrightarrow> has ds env k fs = Inr False)"
  by (auto simp: has_def Let_def split: sum.splits)

theorem has_never_raises_witness:
  "fsAccess (env_fail PAccess (sys_error ''EACCES'' ''access'')) (pfile (encode ex_ds ''/a'')) F_OK fs_a
     = Inl (sys_error ''EACCES'' ''access'') \<and>
   has ex_ds (env_fail PAccess (sys_error ''EACCES'' ''access'')) ''/a'' fs_a = Inr False"
proof -
  have h: "fsAccess (env_fail PAccess (sys_error ''EACCES'' ''access''))
             (pfile (encode ex_ds ''/a'')) F_OK fs_a
           = Inl (sys_error ''EACCES'' ''access'')"
    by (simp add: fsAccess_def env_fail_def)
  from has_never_raises [of ex_ds "env_fail PAccess (sys_error ''EACCES'' ''access'')" "''/a''" fs_a] h
  show ?thesis by blast
qed

section \<open>Queries\<close>

lemma glob_literal_star: "glob_literal s \<Longrightarrow> CHR ''*'' \<notin> set s"
proof
  assume "glob_literal s" "CHR ''*'' \<in> set s"
  then have "CHR ''*'' \<notin> set glob_special" unfolding glob_literal_def by blast
  moreover have "CHR ''*'' \<in> set glob_special" unfolding glob_special_def by simp
  ultimately show False by contradiction
qed

lemma seg_match_literal: "CHR ''*'' \<notin> set pat \<Longrightarrow> seg_match pat s \<longleftrightarrow> s = pat"
proof (induction pat arbitrary: s)
  case Nil
  then show ?case by simp
next
  case (Cons p ps)
  then have p: "p \<noteq> CHR ''*''" and IH: "\<And>s. seg_match ps s \<longleftrightarrow> s = ps" by auto
  show ?case
  proof (cases s)
    case Nil
    with p show ?thesis by simp
  next
    case (Cons c cs)
    have "seg_match (p # ps) (c # cs) \<longleftrightarrow> p = c \<and> seg_match ps cs" using p by simp
    also have "\<dots> \<longleftrightarrow> c # cs = p # ps" using IH [of cs] by auto
    finally show ?thesis using Cons by simp
  qed
qed

lemma seg_match_star:
  "CHR ''*'' \<notin> set ext \<Longrightarrow> seg_match (CHR ''*'' # ext) n \<longleftrightarrow> (\<exists>t. n = t @ ext)"
proof (induction n)
  case Nil
  then show ?case by (auto simp: seg_match_literal)
next
  case (Cons c cs)
  have "(\<exists>t. c # cs = t @ ext) \<longleftrightarrow> c # cs = ext \<or> (\<exists>t. cs = t @ ext)"
    by (auto simp: Cons_eq_append_conv)
  with Cons show ?case by (simp add: seg_match_literal)
qed

lemma name_match_star:
  "CHR ''*'' \<notin> set ext \<Longrightarrow>
   name_match (CHR ''*'' # ext) n \<longleftrightarrow> n \<noteq> [] \<and> hd n \<noteq> CHR ''.'' \<and> (\<exists>t. n = t @ ext)"
  using seg_match_star [of ext n] by (simp add: name_match_def del: seg_match.simps)

lemma name_match_literal: "CHR ''*'' \<notin> set pat \<Longrightarrow> name_match pat n \<longleftrightarrow> n = pat"
  by (auto simp: name_match_def)

lemma segs_match_literals:
  assumes "\<forall>s \<in> set lits. CHR ''*'' \<notin> set s" "pat \<noteq> ''**''"
  shows "segs_match (lits @ [pat]) ns \<longleftrightarrow> (\<exists>n. ns = lits @ [n] \<and> name_match pat n)"
  using assms(1)
proof (induction lits arbitrary: ns)
  case Nil
  with assms(2) show ?case by (cases ns) auto
next
  case (Cons l lits)
  then have l: "l \<noteq> ''**''" "CHR ''*'' \<notin> set l" by auto
  from Cons have IH: "\<And>ns. segs_match (lits @ [pat]) ns \<longleftrightarrow> (\<exists>n. ns = lits @ [n] \<and> name_match pat n)"
    by simp
  show ?case
  proof (cases ns)
    case Nil
    then show ?thesis using l by simp
  next
    case (Cons m ms)
    then show ?thesis using l IH [of ms] by (auto simp: name_match_literal)
  qed
qed

lemma split_abs_path_of:
  assumes "split_str CHR ''/'' f = [] # xs"
  shows "f = path_of xs \<and> (\<forall>t \<in> set xs. CHR ''/'' \<notin> set t)"
proof -
  have "f = join_str ''/'' (split_str CHR ''/'' f)" by (simp add: join_split)
  also have "\<dots> = path_of xs"
  proof (cases "xs = []")
    case True
    with assms show ?thesis by (simp add: path_of_Nil)
  next
    case False
    then have "join_str ''/'' ([] # xs) = CHR ''/'' # join_str ''/'' xs" by (cases xs) auto
    with False assms show ?thesis by (simp add: join_path_of)
  qed
  finally have "f = path_of xs" .
  moreover have "\<forall>t \<in> set xs. CHR ''/'' \<notin> set t"
    using split_str_sep_free [of _ "CHR ''/''" f] assms by auto
  ultimately show ?thesis by simp
qed

lemma gen_map_keys:
  assumes "\<And>x y. x \<in> set xs \<Longrightarrow> f x = Inr y \<Longrightarrow> ekey y = g x"
    and "snd (gen_map f xs) = None"
  shows "map ekey (fst (gen_map f xs)) = map g xs"
  using assms
  by (induction xs) (auto split: sum.splits prod.splits)

lemma gen_map_total:
  "\<forall>x \<in> set xs. \<exists>y. f x = Inr y \<Longrightarrow> snd (gen_map f xs) = None"
proof (induction xs)
  case Nil
  then show ?case by simp
next
  case (Cons a xs)
  then obtain y where "f a = Inr y" by auto
  with Cons show ?case by (auto split: prod.splits)
qed

lemma query_pattern_prefix:
  assumes r: "valid_root (path ds)" and p: "valid_prefix p"
    and e: "CHR ''/'' \<notin> set (extension (opts ds))" and q: "prefix q = Some p"
  shows "query_pattern ds q =
           path_of (segs_of (path ds) @ segs_of p @ [CHR ''*'' # extension (opts ds)])"
proof -
  define rs where "rs = segs_of (path ds)"
  define ps where "ps = segs_of p"
  define ext where "ext = extension (opts ds)"
  from valid_root_segs [OF r] have
    root: "path ds \<noteq> []" "hd (path ds) = CHR ''/''" "\<forall>s \<in> set rs. valid_seg s"
    unfolding rs_def by simp_all
  have "valid_root p" using p by (simp add: valid_prefix_def valid_root_def valid_key_def key_toString_def)
  from valid_root_segs [OF this] have
    pre: "p \<noteq> []" "\<forall>s \<in> set ps. valid_seg s"
    unfolding ps_def by simp_all
  have star: "segs_of (CHR ''*'' # ext) = [CHR ''*'' # ext]"
    using e by (intro segs_of_single) (auto simp: ext_def)
  have "last (CHR ''*'' # ext) \<in> set (CHR ''*'' # ext)" by (rule last_in_set) simp
  then have lst: "last (CHR ''*'' # ext) \<noteq> CHR ''/''" using e unfolding ext_def by auto
  have segs: "segs_of (path ds @ CHR ''/'' # p @ CHR ''/'' # CHR ''*'' # ext) = rs @ ps @ [CHR ''*'' # ext]"
    using segs_of_append [of "path ds" "p @ CHR ''/'' # CHR ''*'' # ext"]
      segs_of_append [of p "CHR ''*'' # ext"] star
    by (simp add: rs_def ps_def)
  have "path_join [path ds, p, CHR ''*'' # ext] = normalize (path ds @ CHR ''/'' # p @ CHR ''/'' # CHR ''*'' # ext)"
    using root pre by (simp add: path_join_def)
  also have "\<dots> = path_of (rs @ ps @ [CHR ''*'' # ext])"
  proof -
    have "last (path ds @ CHR ''/'' # p @ CHR ''/'' # CHR ''*'' # ext) = last (CHR ''*'' # ext)"
      by simp
    with lst have l: "last (path ds @ CHR ''/'' # p @ CHR ''/'' # CHR ''*'' # ext) \<noteq> CHR ''/''"
      by (simp only: not_False_eq_True)
    have v: "\<forall>s \<in> set (rs @ ps @ [CHR ''*'' # ext]). s \<noteq> ''.'' \<and> s \<noteq> ''..''"
      using root pre by (auto simp: valid_seg_def)
    show ?thesis
      using root(1,2) l v by (subst normalize_abs) (simp_all add: segs)
  qed
  finally have "path_join [path ds, p, CHR ''*'' # ext] = path_of (rs @ ps @ [CHR ''*'' # ext])" .
  then show ?thesis
    using q pre by (simp add: query_pattern_def Let_def path_sep_def join_split rs_def ps_def ext_def)
qed

lemma split_str_chars: "s \<in> set (split_str c xs) \<Longrightarrow> set s \<subseteq> set xs"
proof (induction xs arbitrary: s)
  case Nil
  then show ?case by simp
next
  case (Cons x xs)
  show ?case
  proof (cases "x = c")
    case True
    with Cons show ?thesis by auto
  next
    case False
    obtain w ws where sp: "split_str c xs = w # ws"
      using split_str_nonempty [of c xs] by (cases "split_str c xs") auto
    with False Cons.prems have "s = x # w \<or> s \<in> set ws" by simp
    moreover have "set w \<subseteq> set xs" using Cons.IH [of w] sp by simp
    moreover have "s \<in> set ws \<Longrightarrow> set s \<subseteq> set xs" using Cons.IH [of s] sp by simp
    ultimately show ?thesis by auto
  qed
qed

lemma segs_of_star_free:
  "CHR ''*'' \<notin> set p \<Longrightarrow> s \<in> set (segs_of p) \<Longrightarrow> CHR ''*'' \<notin> set s"
  using split_str_chars [of s "CHR ''/''" p] by (auto simp: segs_of_def)

text \<open>The files a one-level pattern matches.\<close>

lemma glob_match_one_level:
  assumes lit: "\<forall>s \<in> set xs. CHR ''*'' \<notin> set s \<and> CHR ''/'' \<notin> set s"
    and ext: "CHR ''*'' \<notin> set ext" "CHR ''/'' \<notin> set ext" "ext \<noteq> []" "hd ext = CHR ''.''"
  shows "glob_match (path_of (xs @ [CHR ''*'' # ext])) f \<longleftrightarrow>
         (\<exists>t. t \<noteq> [] \<and> hd t \<noteq> CHR ''.'' \<and> CHR ''/'' \<notin> set t \<and> f = path_of (xs @ [t @ ext]))"
proof -
  have sp: "split_str CHR ''/'' (path_of (xs @ [CHR ''*'' # ext])) = ([] # xs) @ [CHR ''*'' # ext]"
    using lit ext(2) by (subst split_path_of) auto
  have ne: "CHR ''*'' # ext \<noteq> ''**''" using ext(1) by auto
  have lits: "\<forall>s \<in> set ([] # xs). CHR ''*'' \<notin> set s" using lit by simp
  have m: "glob_match (path_of (xs @ [CHR ''*'' # ext])) f \<longleftrightarrow>
        (\<exists>n. split_str CHR ''/'' f = ([] # xs) @ [n] \<and> n \<noteq> [] \<and> hd n \<noteq> CHR ''.'' \<and> (\<exists>t. n = t @ ext))"
    unfolding glob_match_def sp segs_match_literals [OF lits ne] name_match_star [OF ext(1)] ..
  show ?thesis
  proof
    assume "glob_match (path_of (xs @ [CHR ''*'' # ext])) f"
    with m obtain n t where n: "split_str CHR ''/'' f = [] # (xs @ [n])" "n \<noteq> []" "hd n \<noteq> CHR ''.''"
      "n = t @ ext" by auto
    from split_abs_path_of [OF n(1)] have f: "f = path_of (xs @ [n])" and sf: "CHR ''/'' \<notin> set n"
      by simp_all
    have t1: "t \<noteq> []"
    proof
      assume "t = []"
      with n(4) have "n = ext" by simp
      with n(3) ext(4) show False by simp
    qed
    then have "hd t = hd n" using n(4) by simp
    with n(3) have t2: "hd t \<noteq> CHR ''.''" by simp
    have t3: "CHR ''/'' \<notin> set t" using sf n(4) by simp
    from t1 t2 t3 f n(4)
    show "\<exists>t. t \<noteq> [] \<and> hd t \<noteq> CHR ''.'' \<and> CHR ''/'' \<notin> set t \<and> f = path_of (xs @ [t @ ext])"
      by blast
  next
    assume "\<exists>t. t \<noteq> [] \<and> hd t \<noteq> CHR ''.'' \<and> CHR ''/'' \<notin> set t \<and> f = path_of (xs @ [t @ ext])"
    then obtain t where t: "t \<noteq> []" "hd t \<noteq> CHR ''.''" "CHR ''/'' \<notin> set t" "f = path_of (xs @ [t @ ext])"
      by blast
    have "split_str CHR ''/'' f = ([] # xs) @ [t @ ext]"
      unfolding t(4) using lit t(3) ext(2) by (subst split_path_of) auto
    moreover have "t @ ext \<noteq> []" using t(1) by simp
    moreover have "hd (t @ ext) \<noteq> CHR ''.''" using t(1,2) by simp
    ultimately show "glob_match (path_of (xs @ [CHR ''*'' # ext])) f"
      unfolding m by blast
  qed
qed

lemma path_of_not_root:
  assumes "xs \<noteq> []" "\<forall>s \<in> set xs. valid_seg s"
  shows "path_of xs \<noteq> ''/''"
proof -
  from assms obtain x xs' where x: "xs = x # xs'" "x \<noteq> []" by (cases xs) (auto simp: valid_seg_def)
  then have "length (path_of xs) \<ge> 2" by (cases x) (auto simp: path_of_Cons)
  then show ?thesis by auto
qed

text \<open>The key a matched file decodes to, and the file a key with that parent encodes to.\<close>

lemma matched_file_key:
  assumes r: "valid_root (path ds)" and e: "proper_ext (extension (opts ds))"
    and ps: "\<forall>s \<in> set ps. valid_seg s"
    and t: "t \<noteq> []" "hd t \<noteq> CHR ''.''" "CHR ''/'' \<notin> set t"
  shows "valid_key (path_of (ps @ [t]))"
    and "key_list (path_of (ps @ [t])) = ps @ [t]"
    and "key_parent (path_of (ps @ [t])) = (if ps = [] then ''/'' else path_of ps)"
    and "pfile (encode ds (path_of (ps @ [t])))
           = path_of (segs_of (path ds) @ ps @ [t @ extension (opts ds)])"
    and "decode ds (path_of (segs_of (path ds) @ ps @ [t @ extension (opts ds)]))
           = Inr (path_of (ps @ [t]))"
proof -
  have tv: "valid_seg t"
  proof -
    have "t \<noteq> ''.''" "t \<noteq> ''..''" using t(2) by auto
    with t show ?thesis by (simp add: valid_seg_def)
  qed
  with ps have kv: "\<forall>s \<in> set (ps @ [t]). valid_seg s" by simp
  then show vk: "valid_key (path_of (ps @ [t]))"
    unfolding valid_key_def key_toString_def clean_path_iff by blast
  show kl: "key_list (path_of (ps @ [t])) = ps @ [t]"
    using kv by (rule key_list_path_of)
  show "key_parent (path_of (ps @ [t])) = (if ps = [] then ''/'' else path_of ps)"
    using kv by (rule key_parent_path_of)
  have es: "CHR ''/'' \<notin> set (extension (opts ds))"
    using e by (auto simp: proper_ext_def split: list.splits)
  show f: "pfile (encode ds (path_of (ps @ [t])))
           = path_of (segs_of (path ds) @ ps @ [t @ extension (opts ds)])"
    using encode_shape(1) [OF r vk es] by (simp add: kl)
  show "decode ds (path_of (segs_of (path ds) @ ps @ [t @ extension (opts ds)]))
           = Inr (path_of (ps @ [t]))"
    using decode_encode [OF r vk e] by (simp add: f)
qed


lemma gen_map_values:
  "(\<And>x y. f x = Inr y \<Longrightarrow> P y) \<Longrightarrow> y \<in> set (fst (gen_map f xs)) \<Longrightarrow> P y"
  by (induction xs arbitrary: y) (auto split: sum.splits prod.splits)

text \<open>
  C9. A query with \<open>keysOnly\<close> yields entries without a value, and what it yields
  depends on the paths of the file system only: on two file systems with the same
  paths, whatever their files hold and whichever reads the environment would fail,
  the result is the same.
\<close>

theorem keysOnly_reads_nothing:
  assumes "keysOnly q" and "map fst fs1 = map fst fs2"
  shows "all_q ds env1 q fs1 = all_q ds env2 q fs2 \<and>
         (\<forall>e \<in> set (fst (all_q ds env1 q fs1)). evalue e = None)"
proof -
  have g: "glob_sync (query_pattern ds q) fs1 = glob_sync (query_pattern ds q) fs2"
    using assms(2) by (simp add: glob_sync_def)
  have "all_q ds env1 q fs1 = all_q ds env2 q fs2"
    using assms(1) g by (simp add: all_q_def)
  moreover have "\<forall>e \<in> set (fst (all_q ds env1 q fs1)). evalue e = None"
    using assms(1) by (auto simp: all_q_def elim!: gen_map_values [rotated] split: sum.splits)
  ultimately show ?thesis by blast
qed

theorem keysOnly_reads_nothing_witness:
  "keysOnly \<lparr>prefix = None, keysOnly = True\<rparr> \<and>
   map fst fs_a = map fst [(''/db'', Dir), (''/db/a.data'', File [7, 7] False False)] \<and>
   all_q ex_ds no_faults \<lparr>prefix = None, keysOnly = True\<rparr> fs_a
     = ([\<lparr>ekey = ''/a'', evalue = None\<rparr>], None) \<and>
   all_q ex_ds (env_fail PReadFile (sys_error ''EIO'' ''read'')) \<lparr>prefix = None, keysOnly = True\<rparr>
       [(''/db'', Dir), (''/db/a.data'', File [7, 7] False False)]
     = ([\<lparr>ekey = ''/a'', evalue = None\<rparr>], None)"
proof -
  have k: "keysOnly \<lparr>prefix = None, keysOnly = True\<rparr>" by simp
  have m: "map fst fs_a = map fst [(''/db'', Dir), (''/db/a.data'', File [7, 7] False False)]"
    by (simp add: fs_a_def)
  have v: "all_q ex_ds no_faults \<lparr>prefix = None, keysOnly = True\<rparr> fs_a
             = ([\<lparr>ekey = ''/a'', evalue = None\<rparr>], None)"
    by code_simp
  from keysOnly_reads_nothing [OF k m, of ex_ds no_faults "env_fail PReadFile (sys_error ''EIO'' ''read'')"]
    k m v show ?thesis by simp
qed

text \<open>
  What a query with a prefix matches in this model. Its pattern is
  \<open><root>/<p>/*<extension>\<close>, one level. For a resolved root, a proper extension and a
  prefix that is a valid key or \<open>/\<close>, none of them with a glob character, a query that
  ends without an error (a \<open>keysOnly\<close> query always does) yields the valid keys whose
  parent is \<open>p\<close>, whose leaf does not start with a dot and whose file exists.
\<close>

lemma prefix_query_one_level:
  assumes r: "valid_root (path ds)" and e: "proper_ext (extension (opts ds))"
    and p: "valid_prefix p"
    and g: "glob_literal (path ds)" "glob_literal p" "glob_literal (extension (opts ds))"
    and q: "prefix q = Some p"
  shows "query_pattern ds q
           = path_of (segs_of (path ds) @ segs_of p @ [CHR ''*'' # extension (opts ds)]) \<and>
         (keysOnly q \<longrightarrow> snd (all_q ds env q fs) = None) \<and>
         (snd (all_q ds env q fs) = None \<longrightarrow>
            ekey ` set (fst (all_q ds env q fs))
              = {k. valid_key k \<and> key_parent k = p \<and> \<not> dot_leaf k \<and>
                    pfile (encode ds k) \<in> fst ` set fs})"
proof -
  define rs where "rs = segs_of (path ds)"
  define ps where "ps = segs_of p"
  define ext where "ext = extension (opts ds)"
  define files where "files = glob_sync (query_pattern ds q) fs"
  define kf where "kf = (\<lambda>f. projr (decode ds f))"
  from e obtain e' where ext_eq: "ext = CHR ''.'' # e'"
    and e': "e' \<noteq> []" "CHR ''.'' \<notin> set e'" "CHR ''/'' \<notin> set e'"
    by (auto simp: proper_ext_def ext_def split: list.splits)
  have ext_props: "CHR ''*'' \<notin> set ext" "CHR ''/'' \<notin> set ext" "ext \<noteq> []" "hd ext = CHR ''.''"
    using glob_literal_star [OF g(3)] e' by (simp_all add: ext_eq flip: ext_def)
  from valid_root_segs [OF r] have root: "\<forall>s \<in> set rs. valid_seg s"
    unfolding rs_def by simp
  have "valid_root p" using p by (simp add: valid_prefix_def valid_root_def valid_key_def key_toString_def)
  from valid_root_segs [OF this] have
    pre: "\<forall>s \<in> set ps. valid_seg s" "p = (if ps = [] then ''/'' else path_of ps)"
    unfolding ps_def by simp_all
  have pat: "query_pattern ds q = path_of ((rs @ ps) @ [CHR ''*'' # ext])"
    using query_pattern_prefix [OF r p _ q] ext_props(2) by (simp add: rs_def ps_def ext_def)
  have lit: "\<forall>s \<in> set (rs @ ps). CHR ''*'' \<notin> set s \<and> CHR ''/'' \<notin> set s"
  proof
    fix s assume "s \<in> set (rs @ ps)"
    then have "s \<in> set (segs_of (path ds)) \<or> s \<in> set (segs_of p)" by (simp add: rs_def ps_def)
    then have "CHR ''*'' \<notin> set s"
      using segs_of_star_free [OF glob_literal_star [OF g(1)]]
        segs_of_star_free [OF glob_literal_star [OF g(2)]] by blast
    moreover have "CHR ''/'' \<notin> set s"
      using \<open>s \<in> set (rs @ ps)\<close> root pre(1) by (auto simp: valid_seg_def)
    ultimately show "CHR ''*'' \<notin> set s \<and> CHR ''/'' \<notin> set s" ..
  qed
  have in_files: "f \<in> set files \<longleftrightarrow> f \<in> fst ` set fs \<and>
        (\<exists>t. t \<noteq> [] \<and> hd t \<noteq> CHR ''.'' \<and> CHR ''/'' \<notin> set t \<and> f = path_of ((rs @ ps) @ [t @ ext]))" for f
    unfolding files_def glob_sync_def pat
    using glob_match_one_level [OF lit ext_props] by auto
  have dec: "decode ds f = Inr (kf f)" if "f \<in> set files" for f
  proof -
    from that in_files obtain t where t: "t \<noteq> []" "hd t \<noteq> CHR ''.''" "CHR ''/'' \<notin> set t"
      "f = path_of ((rs @ ps) @ [t @ ext])" by blast
    from matched_file_key(5) [OF r e pre(1) t(1,2,3)] t(4)
    have "decode ds f = Inr (path_of (ps @ [t]))" by (simp add: rs_def ext_def)
    then show ?thesis by (simp add: kf_def)
  qed
  have keys_total: "keysOnly q \<longrightarrow> snd (all_q ds env q fs) = None"
  proof
    assume "keysOnly q"
    then have "all_q ds env q fs
        = gen_map (\<lambda>f. case decode ds f of Inl e \<Rightarrow> Inl e | Inr k \<Rightarrow> Inr \<lparr>ekey = k, evalue = None\<rparr>) files"
      by (simp add: all_q_def files_def)
    moreover have "snd (gen_map (\<lambda>f. case decode ds f of Inl e \<Rightarrow> Inl e
                                   | Inr k \<Rightarrow> Inr \<lparr>ekey = k, evalue = None\<rparr>) files) = None"
      by (rule gen_map_total) (simp add: dec)
    ultimately show "snd (all_q ds env q fs) = None" by simp
  qed
  have keys: "map ekey (fst (all_q ds env q fs)) = map kf files" if n: "snd (all_q ds env q fs) = None"
  proof (cases "keysOnly q")
    case True
    then have a: "all_q ds env q fs
        = gen_map (\<lambda>f. case decode ds f of Inl e \<Rightarrow> Inl e | Inr k \<Rightarrow> Inr \<lparr>ekey = k, evalue = None\<rparr>) files"
      by (simp add: all_q_def files_def)
    show ?thesis
      using n unfolding a by (rule gen_map_keys [rotated]) (auto simp: dec)
  next
    case False
    then have a: "all_q ds env q fs
        = gen_map (\<lambda>f. case fsReadFile env f fs of Inl e \<Rightarrow> Inl e
                       | Inr buf \<Rightarrow> (case decode ds f of Inl e \<Rightarrow> Inl e
                                     | Inr k \<Rightarrow> Inr \<lparr>ekey = k, evalue = Some buf\<rparr>)) files"
      by (simp add: all_q_def files_def)
    show ?thesis
      using n unfolding a by (rule gen_map_keys [rotated]) (auto simp: dec split: sum.splits)
  qed
  have set_eq: "kf ` set files = {k. valid_key k \<and> key_parent k = p \<and> \<not> dot_leaf k \<and>
                    pfile (encode ds k) \<in> fst ` set fs}"
  proof (intro equalityI subsetI)
    fix k assume "k \<in> kf ` set files"
    then obtain f where f: "f \<in> set files" "k = kf f" by blast
    from f(1) in_files obtain t where t: "t \<noteq> []" "hd t \<noteq> CHR ''.''" "CHR ''/'' \<notin> set t"
      "f = path_of ((rs @ ps) @ [t @ ext])" and ffs: "f \<in> fst ` set fs" by blast
    note mk = matched_file_key [OF r e pre(1) t(1,2,3)]
    have "decode ds f = Inr (path_of (ps @ [t]))" using mk(5) t(4) by (simp add: rs_def ext_def)
    with dec [OF f(1)] f(2) have k: "k = path_of (ps @ [t])" by simp
    have "valid_key k" unfolding k by (rule mk(1))
    moreover have "key_parent k = p" unfolding k using mk(3) pre(2) by simp
    moreover have "\<not> dot_leaf k" unfolding k dot_leaf_def mk(2) using t(2) by simp
    moreover have "pfile (encode ds k) \<in> fst ` set fs"
      unfolding k using mk(4) t(4) ffs by (simp add: rs_def ext_def)
    ultimately show "k \<in> {k. valid_key k \<and> key_parent k = p \<and> \<not> dot_leaf k \<and>
                    pfile (encode ds k) \<in> fst ` set fs}" by simp
  next
    fix k assume "k \<in> {k. valid_key k \<and> key_parent k = p \<and> \<not> dot_leaf k \<and>
                    pfile (encode ds k) \<in> fst ` set fs}"
    then have k: "valid_key k" "key_parent k = p" "\<not> dot_leaf k" "pfile (encode ds k) \<in> fst ` set fs"
      by simp_all
    define ps' where "ps' = butlast (key_list k)"
    define t where "t = last (key_list k)"
    from valid_key_segs [OF k(1)] have kl: "key_list k = ps' @ [t]"
      and kv: "\<forall>s \<in> set (ps' @ [t]). valid_seg s" and kp: "k = path_of (ps' @ [t])"
      unfolding ps'_def t_def by simp_all
    have par: "key_parent k = (if ps' = [] then ''/'' else path_of ps')"
      using key_parent_path_of [OF kv] kp by simp
    have pp: "ps' = ps"
    proof (cases "ps' = []")
      case True
      with par k(2) pre(2) have "(if ps = [] then ''/'' else path_of ps) = ''/''" by simp
      then have "ps = []" using path_of_not_root [OF _ pre(1)] by (cases "ps = []") auto
      with True show ?thesis by simp
    next
      case False
      with par k(2) pre(2) have eq: "path_of ps' = (if ps = [] then ''/'' else path_of ps)" by simp
      have "path_of ps' \<noteq> ''/''" using path_of_not_root [OF False] kv by simp
      with eq have "ps \<noteq> []" "path_of ps' = path_of ps" by (auto split: if_splits)
      then show ?thesis using kv pre(1) by (intro path_of_inj) (auto simp: valid_seg_def)
    qed
    have tt: "t \<noteq> []" "hd t \<noteq> CHR ''.''" "CHR ''/'' \<notin> set t"
      using kv k(3) by (simp_all add: valid_seg_def dot_leaf_def kl)
    note mk = matched_file_key [OF r e pre(1) tt]
    have f: "pfile (encode ds k) = path_of ((rs @ ps) @ [t @ ext])"
      using mk(4) kp pp by (simp add: rs_def ext_def)
    then have "pfile (encode ds k) \<in> set files"
      unfolding in_files using k(4) tt by blast
    moreover have "kf (pfile (encode ds k)) = k"
      using mk(5) f kp pp by (simp add: kf_def rs_def ext_def)
    ultimately show "k \<in> kf ` set files" by (metis image_eqI)
  qed
  have "snd (all_q ds env q fs) = None \<longrightarrow>
            ekey ` set (fst (all_q ds env q fs))
              = {k. valid_key k \<and> key_parent k = p \<and> \<not> dot_leaf k \<and>
                    pfile (encode ds k) \<in> fst ` set fs}"
  proof
    assume n: "snd (all_q ds env q fs) = None"
    have "ekey ` set (fst (all_q ds env q fs)) = set (map ekey (fst (all_q ds env q fs)))" by simp
    also have "\<dots> = kf ` set files" unfolding keys [OF n] by simp
    finally show "ekey ` set (fst (all_q ds env q fs))
              = {k. valid_key k \<and> key_parent k = p \<and> \<not> dot_leaf k \<and>
                    pfile (encode ds k) \<in> fst ` set fs}"
      using set_eq by simp
  qed
  with pat keys_total show ?thesis by (simp add: rs_def ps_def ext_def)
qed

text \<open>
  C3 at its failing input. The store holds \<open>/a/1\<close> and \<open>/a/b/3\<close>. The query with the
  prefix \<open>/a\<close> has the pattern \<open>/db/a/*.data\<close>, with no \<open>**\<close> segment, and yields \<open>/a/1\<close>
  only: \<open>/a/b/3\<close>, which has \<open>/a\<close> as a prefix, is missing. The query without a
  prefix, the other branch of the same expression, has the recursive pattern
  \<open>/db/**/*.data\<close> and yields both keys. On the keys of the example, \<open>/a/1\<close>, \<open>/a/2\<close>
  and \<open>/b/1\<close>, all one level below their prefix, the prefix \<open>/a\<close> yields \<open>/a/1\<close> and
  \<open>/a/2\<close>.
\<close>

theorem prefix_query_drops_deeper_keys:
  "get ex_ds no_faults ''/a/b/3'' fs_deep = Inr [3] \<and>
   query_pattern ex_ds \<lparr>prefix = Some ''/a'', keysOnly = True\<rparr> = ''/db/a/*.data'' \<and>
   all_q ex_ds no_faults \<lparr>prefix = Some ''/a'', keysOnly = True\<rparr> fs_deep
     = ([\<lparr>ekey = ''/a/1'', evalue = None\<rparr>], None) \<and>
   query_pattern ex_ds \<lparr>prefix = None, keysOnly = True\<rparr> = ''/db/**/*.data'' \<and>
   all_q ex_ds no_faults \<lparr>prefix = None, keysOnly = True\<rparr> fs_deep
     = ([\<lparr>ekey = ''/a/1'', evalue = None\<rparr>, \<lparr>ekey = ''/a/b/3'', evalue = None\<rparr>], None) \<and>
   all_q ex_ds no_faults \<lparr>prefix = Some ''/a'', keysOnly = True\<rparr> fs_abc
     = ([\<lparr>ekey = ''/a/1'', evalue = None\<rparr>, \<lparr>ekey = ''/a/2'', evalue = None\<rparr>], None)"
  by code_simp

section \<open>The raw and the extension-tagged namespace\<close>

text \<open>
  C10, as the code has it. With a non-empty extension that is a file-name suffix (no
  slash in it), a valid key and a resolved root, \<open>putRaw(k, v)\<close> changes neither
  \<open>get(k)\<close> nor \<open>has(k)\<close>, and \<open>put(k, v)\<close> does not change \<open>getRaw(k)\<close>: the file with
  the extension and the file without it are two paths, and neither is a directory that
  \<open>mkdirp\<close> creates.
\<close>

theorem namespaces_disjoint:
  assumes r: "valid_root (path ds)" and k: "valid_key k"
    and e: "extension (opts ds) \<noteq> []" "CHR ''/'' \<notin> set (extension (opts ds))"
  shows "get ds env' k (snd (putRaw ds env k v fs)) = get ds env' k fs \<and>
         has ds env' k (snd (putRaw ds env k v fs)) = has ds env' k fs \<and>
         getRaw ds env' k (snd (put ds env k v fs)) = getRaw ds env' k fs"
proof -
  define rs where "rs = segs_of (path ds)"
  define ps where "ps = butlast (key_list k)"
  define leaf where "leaf = last (key_list k)"
  define ext where "ext = extension (opts ds)"
  define F where "F = pfile (encode ds k)"
  define R where "R = slice 0 (- int (length ext)) F"
  from valid_root_segs [OF r] have root: "\<forall>s \<in> set rs. valid_seg s"
    unfolding rs_def by simp
  from valid_key_segs [OF k] have kl: "key_list k = ps @ [leaf]"
    and kv: "\<forall>s \<in> set (ps @ [leaf]). valid_seg s"
    unfolding ps_def leaf_def by simp_all
  have lv: "valid_seg leaf" using kv by simp
  have le: "leaf @ ext \<noteq> []" "leaf @ ext \<noteq> ''.''" "leaf @ ext \<noteq> ''..''" "CHR ''/'' \<notin> set (leaf @ ext)"
    using valid_seg_append_ext [OF lv] e(2) unfolding ext_def by blast+
  have F: "F = path_of ((rs @ ps) @ [leaf @ ext])"
    unfolding F_def using encode_shape(1) [OF r k e(2)] by (simp add: rs_def ps_def leaf_def ext_def)
  have dsegs: "segs_of (pdir (encode ds k)) = rs @ ps"
    using encode_shape(2) [OF r k e(2)] by (simp add: rs_def ps_def)
  have "F = path_of ((rs @ ps) @ [leaf]) @ ext"
    unfolding F by (simp add: path_of_append path_of_Cons path_of_Nil)
  then have R: "R = path_of ((rs @ ps) @ [leaf])"
    unfolding R_def using e(1) by (simp add: slice_def Let_def ext_def)
  have RF: "R \<noteq> F"
  proof
    assume "R = F"
    then have "length R = length F" by simp
    then show False unfolding R F using e(1) by (simp add: path_of_append path_of_Cons path_of_Nil ext_def)
  qed
  have Fa: "F \<notin> set (ancestors (pdir (encode ds k)))"
    unfolding F using root kv le dsegs by (intro longer_not_ancestor) (auto simp: valid_seg_def)
  have Ra: "R \<notin> set (ancestors (pdir (encode ds k)))"
    unfolding R using root kv dsegs by (intro longer_not_ancestor) auto
  have 1: "map_of (snd (putRaw ds env k v fs)) F = map_of fs F"
    using Fa RF by (intro putRaw_frame) (auto simp: R_def F_def ext_def)
  have 2: "map_of (snd (put ds env k v fs)) R = map_of fs R"
    using Ra RF by (intro put_frame) (auto simp: F_def)
  have g: "get ds env' k (snd (putRaw ds env k v fs)) = get ds env' k fs"
    using fsReadFile_cong [OF 1] by (simp add: get_def Let_def F_def)
  have h: "has ds env' k (snd (putRaw ds env k v fs)) = has ds env' k fs"
    using fsAccess_cong [OF 1] by (simp add: has_def Let_def F_def)
  have gr: "getRaw ds env' k (snd (put ds env k v fs)) = getRaw ds env' k fs"
    using fsReadFile_cong [OF 2] by (simp add: getRaw_def Let_def R_def F_def ext_def)
  from g h gr show ?thesis by simp
qed

theorem namespaces_disjoint_witness:
  "valid_root (path ex_ds) \<and> valid_key ''/a'' \<and> extension (opts ex_ds) \<noteq> [] \<and>
   CHR ''/'' \<notin> set (extension (opts ex_ds)) \<and>
   snd (putRaw ex_ds no_faults ''/a'' [9] fs_a)
     = [(''/db'', Dir), (''/db/a.data'', File [1] True True), (''/db/a'', File [9] True True)] \<and>
   get ex_ds no_faults ''/a'' (snd (putRaw ex_ds no_faults ''/a'' [9] fs_a)) = Inr [1] \<and>
   has ex_ds no_faults ''/a'' (snd (putRaw ex_ds no_faults ''/a'' [9] fs_a)) = Inr True \<and>
   getRaw ex_ds no_faults ''/a'' (snd (put ex_ds no_faults ''/a'' [9] fs_a))
     = Inl (notFoundError (sys_error ''ENOENT'' ''open''))"
proof -
  have r: "valid_root (path ex_ds)" by code_simp
  have k: "valid_key ''/a''" by code_simp
  have e1: "extension (opts ex_ds) \<noteq> []" by code_simp
  have e2: "CHR ''/'' \<notin> set (extension (opts ex_ds))" by code_simp
  have w: "snd (putRaw ex_ds no_faults ''/a'' [9] fs_a)
     = [(''/db'', Dir), (''/db/a.data'', File [1] True True), (''/db/a'', File [9] True True)]"
    by code_simp
  have g: "get ex_ds no_faults ''/a'' fs_a = Inr [1]" by code_simp
  have h: "has ex_ds no_faults ''/a'' fs_a = Inr True" by code_simp
  have gr: "getRaw ex_ds no_faults ''/a'' fs_a = Inl (notFoundError (sys_error ''ENOENT'' ''open''))"
    by code_simp
  from namespaces_disjoint [OF r k e1 e2, of no_faults no_faults "[9]" fs_a] g h gr
  have "get ex_ds no_faults ''/a'' (snd (putRaw ex_ds no_faults ''/a'' [9] fs_a)) = Inr [1] \<and>
        has ex_ds no_faults ''/a'' (snd (putRaw ex_ds no_faults ''/a'' [9] fs_a)) = Inr True \<and>
        getRaw ex_ds no_faults ''/a'' (snd (put ex_ds no_faults ''/a'' [9] fs_a))
          = Inl (notFoundError (sys_error ''ENOENT'' ''open''))"
    by simp
  with r k e1 e2 w show ?thesis by blast
qed

text \<open>
  C10 as stated fails for an extension with a slash and for a key that is not
  sanitized. With the extension \<open>/..\<close> the file of the valid key \<open>/a/b\<close> is \<open>/db/a\<close>, the
  very directory that the \<open>mkdirp\<close> of \<open>putRaw(/a/b, v)\<close> creates; with the extension
  \<open>.\<close> the file of the key \<open>/a/.\<close> is the root \<open>/db\<close>. In both cases \<open>has(k)\<close> is false
  before \<open>putRaw(k, v)\<close> and true after it.
\<close>

theorem namespaces_disjoint_counterexample:
  "valid_key ''/a/b'' \<and> extension (opts (ex_ds_ext ''/..'')) \<noteq> [] \<and>
   pfile (encode (ex_ds_ext ''/..'') ''/a/b'') = ''/db/a'' \<and>
   has (ex_ds_ext ''/..'') no_faults ''/a/b'' [(''/db'', Dir)] = Inr False \<and>
   has (ex_ds_ext ''/..'') no_faults ''/a/b''
       (snd (putRaw (ex_ds_ext ''/..'') no_faults ''/a/b'' [9] [(''/db'', Dir)])) = Inr True \<and>
   extension (opts (ex_ds_ext ''.'')) \<noteq> [] \<and>
   pfile (encode (ex_ds_ext ''.'') ''/a/.'') = ''/db'' \<and>
   has (ex_ds_ext ''.'') no_faults ''/a/.'' [] = Inr False \<and>
   has (ex_ds_ext ''.'') no_faults ''/a/.''
       (snd (putRaw (ex_ds_ext ''.'') no_faults ''/a/.'' [9] [])) = Inr True"
  by code_simp

end
